theory Spec2Isabelle
  imports Complex_Main
begin

section \<open>Data model\<close>

text \<open>
  One decoded sample, as built by \<open>decodeFitFile\<close> (fit-parser.js): the timestamp is a
  JavaScript \<open>Date\<close>, kept here as its \<open>getTime()\<close> value in milliseconds; every other
  field is \<open>null\<close> when the message does not carry it. JavaScript numbers are modelled
  as exact rationals (integers where the FIT profile has integers).
\<close>

record fit_record =
  timestamp :: int
  speed :: "rat option"
  heartRate :: "int option"
  distance :: "rat option"
  positionLat :: "rat option"
  positionLong :: "rat option"
  cadence :: "int option"
  power :: "int option"
  altitude :: "rat option"

text \<open>An element of \<open>currentSegments\<close>: \<open>{ startRecordIndex, endRecordIndex, sport }\<close>.\<close>

record segment =
  startRecordIndex :: int
  endRecordIndex :: int
  sport :: string

text \<open>
  The exceptions the modelled functions can raise: a property read on \<open>undefined\<close>, and
  whatever the codec throws when \<open>encoder.onMesg\<close> refuses a message.
\<close>

datatype error = TypeError | EncodeError

text \<open>
  \<open>Array.prototype.slice(start, end)\<close>: a negative bound counts from the end of the
  array, and both bounds are clamped to the array.
\<close>

definition js_slice :: "'a list \<Rightarrow> int \<Rightarrow> int \<Rightarrow> 'a list" where
  "js_slice xs start fin =
     (let len = int (length xs);
          k = (if start < 0 then max (len + start) 0 else min start len);
          final = (if fin < 0 then max (len + fin) 0 else min fin len)
      in take (nat (final - k)) (drop (nat k) xs))"

section \<open>Segment planner (main.js)\<close>

text \<open>
  \<open>computeAvgSpeed\<close>: mean of \<open>speed * 3.6\<close> over the records whose speed is not null,
  0 when there is none.
\<close>

definition computeAvgSpeed :: "fit_record list \<Rightarrow> rat" where
  "computeAvgSpeed segRecords =
     (let vals = List.map_filter speed segRecords;
          sum = sum_list (map (\<lambda>v. v * (18 / 5)) vals);
          count = length vals
      in if count > 0 then sum / of_nat count else 0)"

text \<open>
  \<open>buildSegmentsFromCuts\<close>: \<open>currentSegments\<close> is the module variable, passed in and
  returned. The \<open>for\<close> loop pushes one segment for each \<open>i < cuts.length - 1\<close>.
\<close>

definition buildSegmentsFromCuts ::
  "fit_record list \<Rightarrow> segment list \<Rightarrow> int list \<Rightarrow> segment list" where
  "buildSegmentsFromCuts records currentSegments cutRecordIndices =
     (let totalRecords = int (length records);
          cuts = [0] @ cutRecordIndices @ [totalRecords - 1];
          oldSegments = currentSegments
      in map (\<lambda>i.
           let startIdx = cuts ! i;
               endIdx = (if i = length cuts - 2 then cuts ! (i + 1) else cuts ! (i + 1) - 1);
               segRecords = js_slice records startIdx (endIdx + 1);
               avgSpeed = computeAvgSpeed segRecords;
               guessedSport =
                 (if avgSpeed > 20 then ''cycling''
                  else if avgSpeed < 3 then ''transition''
                  else ''running'')
           in \<lparr>startRecordIndex = startIdx, endRecordIndex = endIdx,
               sport = (if length oldSegments > 0 \<and> i < length oldSegments
                        then sport (oldSegments ! i) else guessedSport)\<rparr>)
         [0..<length cuts - 1])"

text \<open>
  \<open>setCutMarkers\<close> (chart.js), seen from the segment list: when a chart exists it calls
  back \<open>onCutMarkersChange\<close>, which rebuilds the segments from the given cuts.
\<close>

definition setCutMarkers ::
  "bool \<Rightarrow> fit_record list \<Rightarrow> segment list \<Rightarrow> int list \<Rightarrow> segment list" where
  "setCutMarkers chartInstance records currentSegments recordIndices =
     (if \<not> chartInstance then currentSegments
      else buildSegmentsFromCuts records currentSegments recordIndices)"

text \<open>
  The two branches of \<open>removeSegmentCut\<close> that merge a segment into a neighbour.
  Reading \<open>currentSegments[j]\<close> outside the array gives \<open>undefined\<close>, and the property
  access on it throws before anything is assigned.
\<close>

definition mergeWithNeighbour :: "segment list \<Rightarrow> int \<Rightarrow> error + segment list" where
  "mergeWithNeighbour currentSegments segIdx =
     (let n = int (length currentSegments) in
      if segIdx < n - 1 then
        (if segIdx < 0 then Inl TypeError
         else
           let j = nat segIdx;
               segs = currentSegments[j + 1 :=
                 (currentSegments ! (j + 1))
                   \<lparr>startRecordIndex := startRecordIndex (currentSegments ! j)\<rparr>]
           in Inr (take j segs @ drop (j + 1) segs))
      else
        (if segIdx \<ge> n \<or> segIdx - 1 < 0 then Inl TypeError
         else
           let j = nat segIdx;
               segs = currentSegments[j - 1 :=
                 (currentSegments ! (j - 1))
                   \<lparr>endRecordIndex := endRecordIndex (currentSegments ! j)\<rparr>]
           in Inr (take j segs @ drop (j + 1) segs)))"

text \<open>
  \<open>removeSegmentCut\<close>: returns at once when at most one segment exists; otherwise merges
  and then sets the chart markers to the start indices of all segments but the first.
\<close>

definition removeSegmentCut ::
  "bool \<Rightarrow> fit_record list \<Rightarrow> segment list \<Rightarrow> int \<Rightarrow> error + segment list" where
  "removeSegmentCut chartInstance records currentSegments segIdx =
     (if length currentSegments \<le> 1 then Inr currentSegments
      else case mergeWithNeighbour currentSegments segIdx of
             Inl e \<Rightarrow> Inl e
           | Inr merged \<Rightarrow>
               (let cutIndices = map startRecordIndex (drop 1 merged)
                in Inr (setCutMarkers chartInstance records merged cutIndices)))"

text \<open>
  \<open>resetSegments\<close>: one segment over all records; \<open>summarySport\<close> is
  \<open>parsedData.summary.sport\<close>, and an empty string is falsy.
\<close>

definition resetSegments :: "fit_record list \<Rightarrow> string \<Rightarrow> segment list" where
  "resetSegments records summarySport =
     [\<lparr>startRecordIndex = 0, endRecordIndex = int (length records) - 1,
       sport = (if summarySport = [] then ''running'' else summarySport)\<rparr>]"

section \<open>The partition invariant\<close>

fun contiguous :: "segment list \<Rightarrow> bool" where
  "contiguous [] = True"
| "contiguous [s] = True"
| "contiguous (s # t # rest) =
     (endRecordIndex s + 1 = startRecordIndex t \<and> contiguous (t # rest))"

definition partition_inv :: "int \<Rightarrow> segment list \<Rightarrow> bool" where
  "partition_inv N segs =
     (segs \<noteq> [] \<and> startRecordIndex (hd segs) = 0 \<and> endRecordIndex (last segs) = N - 1
      \<and> contiguous segs
      \<and> list_all (\<lambda>s. startRecordIndex s \<le> endRecordIndex s) segs)"

text \<open>The boundaries of a segment list, without the sports.\<close>

definition bounds :: "segment \<Rightarrow> int \<times> int" where
  "bounds s = (startRecordIndex s, endRecordIndex s)"

text \<open>
  Proof-level views of a segment list: the boundary pairs that the cut list
  \<open>[a, c1, ..., ck, e]\<close> stands for, and contiguity on boundary pairs.
\<close>

fun seg_bounds :: "int \<Rightarrow> int list \<Rightarrow> int \<Rightarrow> (int \<times> int) list" where
  "seg_bounds a [] e = [(a, e)]"
| "seg_bounds a (c # cs) e = (a, c - 1) # seg_bounds c cs e"

fun contig_b :: "(int \<times> int) list \<Rightarrow> bool" where
  "contig_b [] = True"
| "contig_b [s] = True"
| "contig_b (s # t # rest) = (snd s + 1 = fst t \<and> contig_b (t # rest))"

section \<open>Chart click handler (chart.js)\<close>

text \<open>
  \<open>createSpeedChart\<close> plots every \<open>step\<close>-th record; \<open>indexMap\<close> maps a chart point back
  to its record index.
\<close>

definition chartStep :: "nat \<Rightarrow> nat" where
  "chartStep n = (if n > 2000 then (n + 1999) div 2000 else 1)"

definition indexMap :: "nat \<Rightarrow> int list" where
  "indexMap n = map (\<lambda>k. int (k * chartStep n)) [0..<(n + chartStep n - 1) div chartStep n]"

text \<open>\<open>indexMap[ci]\<close>: \<open>undefined\<close> (\<open>None\<close>) outside the array.\<close>

definition indexMapAt :: "int list \<Rightarrow> nat \<Rightarrow> int option" where
  "indexMapAt imap ci = (if ci < length imap then Some (imap ! ci) else None)"

text \<open>
  \<open>handleChartClick\<close> from the point where the pixel geometry has been resolved:
  \<open>closestIdx\<close> is the chart point nearest to the click and \<open>existingMarkerIdx\<close> the
  result of the \<open>findIndex\<close> over the markers (\<open>None\<close> for \<open>-1\<close>, the click is on no
  marker). The state is the chart's \<open>cutMarkers\<close> together with \<open>currentSegments\<close>.
  A comparison with an \<open>undefined\<close> record index is false, so the guard does not fire on
  it. The callback \<open>onCutMarkersChange\<close> rebuilds the segments from the record indices of
  the markers; when one of them is \<open>undefined\<close> the rebuild works on a cut that is not a
  number, which \<open>buildSegmentsFromCuts\<close> on integer cuts does not describe: the result
  then carries the new markers and \<open>None\<close> for the segments.
\<close>

definition handleChartClick ::
  "fit_record list \<Rightarrow> nat \<Rightarrow> nat option \<Rightarrow> nat list \<times> segment list
     \<Rightarrow> nat list \<times> segment list option" where
  "handleChartClick records closestIdx existingMarkerIdx st =
     (let cutMarkers = fst st;
          currentSegments = snd st;
          imap = indexMap (length records);
          recordIndex = indexMapAt imap closestIdx;
          notify = (\<lambda>cm. (cm, map_option (buildSegmentsFromCuts records currentSegments)
                                  (those (map (indexMapAt imap) cm))))
      in case existingMarkerIdx of
           Some k \<Rightarrow> notify (take k cutMarkers @ drop (k + 1) cutMarkers)
         | None \<Rightarrow>
             if (case recordIndex of
                   None \<Rightarrow> False
                 | Some r \<Rightarrow> r < 5 \<or> r > int (length records) - 5)
             then (cutMarkers, Some currentSegments)
             else notify (sort (cutMarkers @ [closestIdx])))"

section \<open>Transition detection (main.js)\<close>

text \<open>
  \<open>computeSpeedProfile\<close>: for every index the mean of \<open>speed * 3.6\<close> over the window
  \<open>[max 0 (i - w), min (n - 1) (i + w)]\<close>, records without speed left out; subtraction on
  \<open>nat\<close> stops at 0 as \<open>Math.max(0, i - w)\<close> does.
\<close>

definition computeSpeedProfile :: "fit_record list \<Rightarrow> rat list" where
  "computeSpeedProfile records =
     (let n = length records;
          windowSize = max 10 (n div 100)
      in map (\<lambda>i.
           let start = i - windowSize;
               fin = min (n - 1) (i + windowSize);
               vals = List.map_filter (\<lambda>j. speed (records ! j)) [start..<fin + 1];
               sum = sum_list (map (\<lambda>v. v * (18 / 5)) vals);
               count = length vals
           in if count > 0 then sum / of_nat count else 0)
         [0..<n])"

text \<open>
  The greedy selection loop of \<open>findSpeedTransitions\<close> over the sorted candidates
  \<open>(index, value)\<close>.
\<close>

fun pickPeaks :: "nat \<Rightarrow> nat \<Rightarrow> (nat \<times> rat) list \<Rightarrow> nat list \<Rightarrow> nat list" where
  "pickPeaks numSplits minGap [] peaks = peaks"
| "pickPeaks numSplits minGap (candidate # rest) peaks =
     (if length peaks \<ge> numSplits then peaks
      else
        let tooClose = list_ex (\<lambda>p. \<bar>int p - int (fst candidate)\<bar> < int minGap) peaks
        in if \<not> tooClose then pickPeaks numSplits minGap rest (peaks @ [fst candidate])
           else pickPeaks numSplits minGap rest peaks)"

text \<open>
  The passes of \<open>findSpeedTransitions\<close>, one definition for each loop. First the
  derivative: \<open>|profile[min (n - 1) (i + w)] - profile[max 0 (i - w)]|\<close>.
\<close>

definition speedDerivative :: "rat list \<Rightarrow> rat list" where
  "speedDerivative profile =
     (let n = length profile;
          windowSize = max 5 (n div 200)
      in map (\<lambda>i.
           let prev = i - windowSize;
               next = min (n - 1) (i + windowSize)
           in \<bar>profile ! next - profile ! prev\<bar>) [0..<n])"

text \<open>The smoothing pass, with \<open>sw\<close> computed from the length of the profile.\<close>

definition smoothDerivative :: "nat \<Rightarrow> rat list \<Rightarrow> rat list" where
  "smoothDerivative profileLength derivative =
     (let sw = max 5 (profileLength div 50)
      in map (\<lambda>i.
           let s = i - sw;
               e = min (length derivative - 1) (i + sw);
               sum = sum_list (map (\<lambda>j. derivative ! j) [s..<e + 1])
           in sum / of_nat (e - s + 1)) [0..<length derivative])"

text \<open>
  The candidates \<open>{index, value}\<close>, filtered to \<open>minGap < index < n - minGap\<close> and sorted
  by descending value; the comparator sort is stable, as \<open>sort_key\<close> on the negated value is.
\<close>

definition rankedCandidates :: "nat \<Rightarrow> nat \<Rightarrow> rat list \<Rightarrow> (nat \<times> rat) list" where
  "rankedCandidates profileLength minGap smoothDeriv =
     sort_key (\<lambda>c. - snd c)
       (filter (\<lambda>c. fst c > minGap \<and> fst c < profileLength - minGap)
          (zip [0..<length smoothDeriv] smoothDeriv))"

text \<open>
  \<open>findSpeedTransitions\<close>. \<open>Math.floor(n * 0.15)\<close> is \<open>15 n div 100\<close>.
\<close>

definition findSpeedTransitions :: "rat list \<Rightarrow> nat \<Rightarrow> nat list" where
  "findSpeedTransitions profile numSplits =
     (if length profile < 100 then []
      else
        let derivative = speedDerivative profile;
            minGap = (length profile * 15) div 100;
            smoothDeriv = smoothDerivative (length profile) derivative;
            candidates = rankedCandidates (length profile) minGap smoothDeriv;
            peaks = pickPeaks numSplits minGap candidates []
        in sort peaks)"

text \<open>The detector as \<open>applyPreset\<close> runs it: profile first, then the transitions.\<close>

definition detectTransitions :: "fit_record list \<Rightarrow> nat \<Rightarrow> nat list" where
  "detectTransitions records k = findSpeedTransitions (computeSpeedProfile records) k"

section \<open>Session reconstruction (fit-encoder.js)\<close>

text \<open>
  A message handed to or taken from the codec: a message number and a field map, kept as
  an association list in property order. \<open>Ext\<close> stands for codec values that are
  neither numbers nor strings.
\<close>

datatype 'x fval = Num rat | Str string | Null | Undefined | Ext 'x

record 'x mesg =
  mesgNum :: nat
  data :: "(string \<times> 'x fval) list"

text \<open>Message numbers of the FIT profile (\<open>Profile.MesgNum\<close>) and the FIT epoch.\<close>

definition FILE_ID :: nat where "FILE_ID = 0"
definition SESSION :: nat where "SESSION = 18"
definition LAP :: nat where "LAP = 19"
definition RECORD :: nat where "RECORD = 20"
definition EVENT :: nat where "EVENT = 21"
definition DEVICE_INFO :: nat where "DEVICE_INFO = 23"
definition ACTIVITY :: nat where "ACTIVITY = 34"

definition FIT_EPOCH_MS :: int where "FIT_EPOCH_MS = 631065600000"

text \<open>Object spread followed by one property: the property is replaced in place or appended.\<close>

fun set_field :: "string \<Rightarrow> 'x fval \<Rightarrow> (string \<times> 'x fval) list \<Rightarrow> (string \<times> 'x fval) list" where
  "set_field k v [] = [(k, v)]"
| "set_field k v (p # ps) = (if fst p = k then (k, v) # ps else p # set_field k v ps)"

text \<open>\<open>getTimestamp\<close> on a \<open>Date\<close> (\<open>Some\<close>) or on \<open>undefined\<close> (\<open>None\<close>).\<close>

definition getTimestampInt :: "int \<Rightarrow> int" where
  "getTimestampInt ms = round ((of_int (ms - FIT_EPOCH_MS) :: rat) / 1000)"

definition getTimestamp :: "int option \<Rightarrow> 'x fval" where
  "getTimestamp dateOrValue =
     (case dateOrValue of None \<Rightarrow> Undefined | Some ms \<Rightarrow> Num (of_int (getTimestampInt ms)))"

definition findMessage :: "'x mesg list \<Rightarrow> nat \<Rightarrow> 'x mesg option" where
  "findMessage orderedMessages num = List.find (\<lambda>m. mesgNum m = num) orderedMessages"

definition findAllMessages :: "'x mesg list \<Rightarrow> nat \<Rightarrow> 'x mesg list" where
  "findAllMessages orderedMessages num = filter (\<lambda>m. mesgNum m = num) orderedMessages"

text \<open>
  \<open>getRawRecordsInRange\<close>: the loop over the messages with its running \<open>recordIdx\<close>,
  stopping once \<open>recordIdx\<close> has passed \<open>endIdx\<close>.
\<close>

fun rawRecordsLoop :: "'x mesg list \<Rightarrow> int \<Rightarrow> int \<Rightarrow> int \<Rightarrow> 'x mesg list" where
  "rawRecordsLoop [] startIdx endIdx recordIdx = []"
| "rawRecordsLoop (msg # rest) startIdx endIdx recordIdx =
     (if mesgNum msg = RECORD then
        (if recordIdx \<ge> startIdx \<and> recordIdx \<le> endIdx then [msg] else [])
        @ (if recordIdx + 1 > endIdx then []
           else rawRecordsLoop rest startIdx endIdx (recordIdx + 1))
      else rawRecordsLoop rest startIdx endIdx recordIdx)"

definition getRawRecordsInRange :: "'x mesg list \<Rightarrow> int \<Rightarrow> int \<Rightarrow> 'x mesg list" where
  "getRawRecordsInRange orderedMessages startIdx endIdx =
     rawRecordsLoop orderedMessages startIdx endIdx 0"

record segment_stats =
  elapsedTime :: rat
  totalDistance :: rat
  avgHeartRate :: "int option"
  maxHeartRate :: "int option"
  avgSpeed :: "rat option"
  maxSpeed :: "rat option"
  avgCadence :: "int option"
  avgPower :: "int option"
  totalCalories :: int

text \<open>
  \<open>computeSegmentStats\<close>. The one loop keeps independent accumulators; each is written
  here over the list of defined values of its field: a sum, a count, and for the maxima
  a fold of \<open>Math.max\<close> from 0.
\<close>

definition computeSegmentStats :: "fit_record list \<Rightarrow> segment_stats" where
  "computeSegmentStats segRecords =
     (if length segRecords = 0 then
        \<lparr>elapsedTime = 0, totalDistance = 0, avgHeartRate = None, maxHeartRate = None,
         avgSpeed = None, maxSpeed = None, avgCadence = None, avgPower = None,
         totalCalories = 0\<rparr>
      else
        let first = hd segRecords;
            lastRec = last segRecords;
            elapsed = (of_int (timestamp lastRec - timestamp first) :: rat) / 1000;
            firstDist = (case distance first of None \<Rightarrow> 0 | Some d \<Rightarrow> d);
            lastDist = (case distance lastRec of None \<Rightarrow> 0 | Some d \<Rightarrow> d);
            totalDist = lastDist - firstDist;
            hrs = List.map_filter heartRate segRecords;
            hrSum = sum_list hrs; hrCount = length hrs; maxHr = fold max hrs 0;
            speeds = List.map_filter speed segRecords;
            speedSum = sum_list speeds; speedCount = length speeds; maxSp = fold max speeds 0;
            cadences = List.map_filter cadence segRecords;
            cadenceSum = sum_list cadences; cadenceCount = length cadences;
            powers = List.map_filter power segRecords;
            powerSum = sum_list powers; powerCount = length powers
        in \<lparr>elapsedTime = elapsed,
            totalDistance = (if totalDist > 0 then totalDist else 0),
            avgHeartRate = (if hrCount > 0
                            then Some (round ((of_int hrSum :: rat) / of_nat hrCount)) else None),
            maxHeartRate = (if maxHr > 0 then Some maxHr else None),
            avgSpeed = (if speedCount > 0 then Some (speedSum / of_nat speedCount) else None),
            maxSpeed = (if maxSp > 0 then Some maxSp else None),
            avgCadence = (if cadenceCount > 0
                          then Some (round ((of_int cadenceSum :: rat) / of_nat cadenceCount))
                          else None),
            avgPower = (if powerCount > 0
                        then Some (round ((of_int powerSum :: rat) / of_nat powerCount))
                        else None),
            totalCalories = 0\<rparr>)"

text \<open>
  The distance column of \<open>renderSegmentsTable\<close> (main.js), computed for the same slice.
\<close>

definition renderSegmentsTable_distance :: "fit_record list \<Rightarrow> rat" where
  "renderSegmentsTable_distance segRecords =
     (if segRecords = [] then 0
      else case (distance (last segRecords), distance (hd segRecords)) of
             (Some l, Some f) \<Rightarrow> l - f
           | _ \<Rightarrow> 0)"

definition numOrNull :: "rat option \<Rightarrow> 'x fval" where
  "numOrNull v = (case v of None \<Rightarrow> Null | Some x \<Rightarrow> Num x)"

definition intOrNull :: "int option \<Rightarrow> 'x fval" where
  "intOrNull v = (case v of None \<Rightarrow> Null | Some x \<Rightarrow> Num (of_int x))"

text \<open>The messages written for one segment whose slice is not empty.\<close>

definition segmentMessages ::
  "'x mesg list \<Rightarrow> fit_record list \<Rightarrow> segment \<Rightarrow> nat \<Rightarrow> nat \<Rightarrow> 'x mesg list" where
  "segmentMessages rawOrderedMessages segRecords seg segIdx totalLapIndex =
     (let segStartTs = getTimestamp (Some (timestamp (hd segRecords)));
          segEndTs = getTimestamp (Some (timestamp (last segRecords)));
          rawRecordsInSegment = getRawRecordsInRange rawOrderedMessages
             (startRecordIndex seg) (endRecordIndex seg);
          stats = computeSegmentStats segRecords
      in [\<lparr>mesgNum = EVENT,
            data = [(''timestamp'', segStartTs), (''event'', Str ''timer''),
                    (''eventType'', Str ''start'')]\<rparr>]
         @ map (\<lambda>rawRec. \<lparr>mesgNum = RECORD, data = data rawRec\<rparr>) rawRecordsInSegment
         @ [\<lparr>mesgNum = EVENT,
              data = [(''timestamp'', segEndTs), (''event'', Str ''timer''),
                      (''eventType'', Str ''stopAll'')]\<rparr>,
            \<lparr>mesgNum = LAP,
              data = [(''messageIndex'', Num (of_nat totalLapIndex)),
                      (''timestamp'', segEndTs),
                      (''startTime'', segStartTs),
                      (''totalElapsedTime'', Num (elapsedTime stats)),
                      (''totalTimerTime'', Num (elapsedTime stats)),
                      (''totalDistance'', Num (totalDistance stats)),
                      (''sport'', Str (sport seg)),
                      (''subSport'', Str ''generic''),
                      (''avgHeartRate'', intOrNull (avgHeartRate stats)),
                      (''maxHeartRate'', intOrNull (maxHeartRate stats)),
                      (''avgSpeed'', numOrNull (avgSpeed stats)),
                      (''maxSpeed'', numOrNull (maxSpeed stats)),
                      (''avgCadence'', intOrNull (avgCadence stats)),
                      (''avgPower'', intOrNull (avgPower stats)),
                      (''enhancedAvgSpeed'', numOrNull (avgSpeed stats)),
                      (''enhancedMaxSpeed'', numOrNull (maxSpeed stats))]\<rparr>,
            \<lparr>mesgNum = SESSION,
              data = [(''messageIndex'', Num (of_nat segIdx)),
                      (''timestamp'', segEndTs),
                      (''startTime'', segStartTs),
                      (''totalElapsedTime'', Num (elapsedTime stats)),
                      (''totalTimerTime'', Num (elapsedTime stats)),
                      (''totalDistance'', Num (totalDistance stats)),
                      (''sport'', Str (sport seg)),
                      (''subSport'', Str ''generic''),
                      (''firstLapIndex'', Num (of_nat segIdx)),
                      (''numLaps'', Num 1),
                      (''avgHeartRate'', intOrNull (avgHeartRate stats)),
                      (''maxHeartRate'', intOrNull (maxHeartRate stats)),
                      (''avgSpeed'', numOrNull (avgSpeed stats)),
                      (''maxSpeed'', numOrNull (maxSpeed stats)),
                      (''avgCadence'', intOrNull (avgCadence stats)),
                      (''avgPower'', intOrNull (avgPower stats)),
                      (''enhancedAvgSpeed'', numOrNull (avgSpeed stats)),
                      (''enhancedMaxSpeed'', numOrNull (maxSpeed stats)),
                      (''totalCalories'', Num (of_int (totalCalories stats)))]\<rparr>])"

text \<open>
  The loop over the segments: a segment with an empty slice is skipped (\<open>continue\<close>)
  and does not advance \<open>totalLapIndex\<close>.
\<close>

fun segmentLoop ::
  "'x mesg list \<Rightarrow> fit_record list \<Rightarrow> segment list \<Rightarrow> nat \<Rightarrow> nat \<Rightarrow> 'x mesg list" where
  "segmentLoop rawOrderedMessages records [] segIdx totalLapIndex = []"
| "segmentLoop rawOrderedMessages records (seg # rest) segIdx totalLapIndex =
     (let segRecords = js_slice records (startRecordIndex seg) (endRecordIndex seg + 1)
      in if length segRecords = 0
         then segmentLoop rawOrderedMessages records rest (segIdx + 1) totalLapIndex
         else segmentMessages rawOrderedMessages segRecords seg segIdx totalLapIndex
              @ segmentLoop rawOrderedMessages records rest (segIdx + 1) (totalLapIndex + 1))"

text \<open>
  \<open>encoder.onMesg\<close> for a run of calls. The encoder is the codec's object: \<open>accepts\<close>
  says, for the messages it has taken so far and the next one, whether it takes it or
  throws. A throw ends the function at that call.
\<close>

fun onMesgs ::
  "('x mesg list \<Rightarrow> 'x mesg \<Rightarrow> bool) \<Rightarrow> 'x mesg list \<Rightarrow> 'x mesg list \<Rightarrow> error + 'x mesg list" where
  "onMesgs accepts encoder [] = Inr encoder"
| "onMesgs accepts encoder (m # ms) =
     (if accepts encoder m then onMesgs accepts (encoder @ [m]) ms else Inl EncodeError)"

text \<open>The file-id message: the original one declared an activity, or a minimal one.\<close>

definition fileIdMessage :: "'x mesg list \<Rightarrow> fit_record list \<Rightarrow> 'x mesg" where
  "fileIdMessage rawOrderedMessages records =
     (case findMessage rawOrderedMessages FILE_ID of
        Some fileIdMsg \<Rightarrow>
          \<lparr>mesgNum = FILE_ID, data = set_field ''type'' (Str ''activity'') (data fileIdMsg)\<rparr>
      | None \<Rightarrow>
          \<lparr>mesgNum = FILE_ID,
           data = [(''type'', Str ''activity''), (''manufacturer'', Str ''garmin''),
                   (''product'', Num 0),
                   (''timeCreated'',
                      getTimestamp (case records of [] \<Rightarrow> None
                                    | r # _ \<Rightarrow> Some (timestamp r))),
                   (''serialNumber'', Num 12345)]\<rparr>)"

definition deviceInfoMessages :: "'x mesg list \<Rightarrow> 'x mesg list" where
  "deviceInfoMessages rawOrderedMessages =
     map (\<lambda>dim. \<lparr>mesgNum = DEVICE_INFO, data = data dim\<rparr>)
       (findAllMessages rawOrderedMessages DEVICE_INFO)"

text \<open>
  The trailing activity message, for at least one record. \<open>tzOffset\<close> is
  \<open>getTimezoneOffset\<close> of the environment.
\<close>

definition activityMessage :: "(int \<Rightarrow> int) \<Rightarrow> fit_record list \<Rightarrow> segment list \<Rightarrow> 'x mesg" where
  "activityMessage tzOffset records segments =
     (let firstRecord = hd records;
          lastRecord = last records;
          totalElapsedTime =
            (of_int (timestamp lastRecord - timestamp firstRecord) :: rat) / 1000;
          activityTimestamp = getTimestampInt (timestamp lastRecord);
          localOffset = tzOffset (timestamp lastRecord) * (- 60)
      in \<lparr>mesgNum = ACTIVITY,
          data = [(''timestamp'', Num (of_int activityTimestamp)),
                  (''numSessions'', Num (of_nat (length segments))),
                  (''totalTimerTime'', Num totalElapsedTime),
                  (''localTimestamp'', Num (of_int (activityTimestamp + localOffset)))]\<rparr>)"

text \<open>
  \<open>encodeFitFile\<close>, up to the messages the encoder has taken when \<open>close\<close> is called.
  The calls of \<open>onMesg\<close> come in the order of the source: file id, device infos, the
  messages of each segment; what lies between them computes values and cannot throw.
  Then, with no record at all, reading \<open>lastRecord.timestamp\<close> throws; otherwise the
  activity message is the last call.
\<close>

definition encodeFitFile ::
  "('x mesg list \<Rightarrow> 'x mesg \<Rightarrow> bool) \<Rightarrow> (int \<Rightarrow> int) \<Rightarrow> 'x mesg list \<Rightarrow> fit_record list
     \<Rightarrow> segment list \<Rightarrow> error + 'x mesg list" where
  "encodeFitFile accepts tzOffset rawOrderedMessages records segments =
     (case onMesgs accepts []
             ([fileIdMessage rawOrderedMessages records]
              @ deviceInfoMessages rawOrderedMessages
              @ segmentLoop rawOrderedMessages records segments 0 0) of
        Inl e \<Rightarrow> Inl e
      | Inr encoder \<Rightarrow>
          if records = [] then Inl TypeError
          else onMesgs accepts encoder [activityMessage tzOffset records segments])"

text \<open>
  For stating what the codec is asked: all messages of a run in call order, whether an
  encoder in a given state takes a run of messages, and the messages it has taken when
  the run ends or a call throws.
\<close>

definition encoderCalls ::
  "(int \<Rightarrow> int) \<Rightarrow> 'x mesg list \<Rightarrow> fit_record list \<Rightarrow> segment list \<Rightarrow> 'x mesg list" where
  "encoderCalls tzOffset rawOrderedMessages records segments =
     [fileIdMessage rawOrderedMessages records]
     @ deviceInfoMessages rawOrderedMessages
     @ segmentLoop rawOrderedMessages records segments 0 0
     @ [activityMessage tzOffset records segments]"

fun takesAll :: "('x mesg list \<Rightarrow> 'x mesg \<Rightarrow> bool) \<Rightarrow> 'x mesg list \<Rightarrow> 'x mesg list \<Rightarrow> bool" where
  "takesAll accepts encoder [] = True"
| "takesAll accepts encoder (m # ms) =
     (accepts encoder m \<and> takesAll accepts (encoder @ [m]) ms)"


text \<open>
  A codec that, like the FIT SDK's encoder, refuses a message whose sport is the string
  \<open>unknown\<close> (the FIT profile has no sport of that name; \<open>decodeFitFile\<close> uses it for a
  file without a session), and takes every other message.
\<close>

definition codecRefusingUnknown :: "'x mesg list \<Rightarrow> 'x mesg \<Rightarrow> bool" where
  "codecRefusingUnknown encoder m = (map_of (data m) ''sport'' \<noteq> Some (Str ''unknown''))"

text \<open>Reading the emitted stream: the messages of one kind, and a numeric field.\<close>

definition emitted :: "nat \<Rightarrow> 'x mesg list \<Rightarrow> 'x mesg list" where
  "emitted num out = filter (\<lambda>m. mesgNum m = num) out"

definition numField :: "string \<Rightarrow> 'x mesg \<Rightarrow> rat option" where
  "numField name m = (case map_of (data m) name of Some (Num x) \<Rightarrow> Some x | _ \<Rightarrow> None)"

text \<open>Merging the boundary pairs at positions \<open>j\<close> and \<open>j + 1\<close>.\<close>

definition merge_b :: "nat \<Rightarrow> (int \<times> int) list \<Rightarrow> (int \<times> int) list" where
  "merge_b j bs = take j bs @ (fst (bs ! j), snd (bs ! Suc j)) # drop (Suc (Suc j)) bs"

text \<open>
  What the claims read off the emitted stream: the total distance and the elapsed time of
  every session message and the elapsed time of the activity message; and, for stating the
  elapsed-time balance, the elapsed time of a segment by its end samples and the time
  between the last sample of each segment and the first sample of the next.
\<close>

definition sessionElapsedTimes :: "'x mesg list \<Rightarrow> rat list" where
  "sessionElapsedTimes out = List.map_filter (numField ''totalElapsedTime'') (emitted SESSION out)"

definition sessionDistances :: "'x mesg list \<Rightarrow> rat list" where
  "sessionDistances out = List.map_filter (numField ''totalDistance'') (emitted SESSION out)"

definition activityElapsedTimes :: "'x mesg list \<Rightarrow> rat list" where
  "activityElapsedTimes out = List.map_filter (numField ''totalTimerTime'') (emitted ACTIVITY out)"

fun boundaryGaps :: "fit_record list \<Rightarrow> segment list \<Rightarrow> rat" where
  "boundaryGaps records (s # t # rest) =
     (of_int (timestamp (records ! nat (startRecordIndex t))
              - timestamp (records ! nat (endRecordIndex s))) :: rat) / 1000
     + boundaryGaps records (t # rest)"
| "boundaryGaps records segs = 0"

definition segmentElapsed :: "fit_record list \<Rightarrow> segment \<Rightarrow> rat" where
  "segmentElapsed records seg =
     (of_int (timestamp (records ! nat (endRecordIndex seg))
              - timestamp (records ! nat (startRecordIndex seg))) :: rat) / 1000"

text \<open>Selected peaks are distinct and any two are at least \<open>g\<close> apart.\<close>

definition separated :: "nat \<Rightarrow> nat list \<Rightarrow> bool" where
  "separated g xs = (distinct xs \<and> (\<forall>a\<in>set xs. \<forall>b\<in>set xs. a < b \<longrightarrow> a + g \<le> b))"

section \<open>Concrete inputs\<close>

text \<open>Ten samples at a constant 10 m/s.\<close>

definition w_records :: "fit_record list" where
  "w_records = replicate 10 \<lparr>timestamp = 0, speed = Some 10, heartRate = None, distance = None,
     positionLat = None, positionLong = None, cadence = None, power = None, altitude = None\<rparr>"

text \<open>Scenario A: 1000 samples at 1 Hz, constant 10 m/s.\<close>

definition scenarioA_records :: "fit_record list" where
  "scenarioA_records = map (\<lambda>i. \<lparr>timestamp = 1000 * int i, speed = Some 10, heartRate = None,
     distance = None, positionLat = None, positionLong = None, cadence = None, power = None,
     altitude = None\<rparr>) [0..<1000]"

definition single_segment :: "segment list" where
  "single_segment = [\<lparr>startRecordIndex = 0, endRecordIndex = 9, sport = ''running''\<rparr>]"

definition two_segments :: "segment list" where
  "two_segments = [\<lparr>startRecordIndex = 0, endRecordIndex = 2, sport = ''running''\<rparr>,
                   \<lparr>startRecordIndex = 3, endRecordIndex = 9, sport = ''cycling''\<rparr>]"

text \<open>Small activities for the statistics and the encoder.\<close>

definition sample :: "int \<Rightarrow> rat option \<Rightarrow> int option \<Rightarrow> rat option \<Rightarrow> fit_record" where
  "sample t sp hr d = \<lparr>timestamp = t, speed = sp, heartRate = hr, distance = d,
     positionLat = None, positionLong = None, cadence = None, power = None, altitude = None\<rparr>"

text \<open>Four samples, the third without a distance, cut into two segments.\<close>

definition c6_activity :: "fit_record list" where
  "c6_activity = [sample 0 (Some 3) None (Some 0), sample 1000 (Some 3) None (Some 100),
                  sample 2000 (Some 3) None None, sample 3000 (Some 3) None (Some 300)]"

definition c6_segments :: "segment list" where
  "c6_segments = [\<lparr>startRecordIndex = 0, endRecordIndex = 1, sport = ''running''\<rparr>,
                  \<lparr>startRecordIndex = 2, endRecordIndex = 3, sport = ''cycling''\<rparr>]"

definition c10_records :: "fit_record list" where
  "c10_records = [sample 0 (Some 0) (Some 0) None, sample 1000 None None None,
                  sample 2000 (Some 0) (Some 0) None]"

definition c4_records :: "fit_record list" where
  "c4_records = [sample 0 None None None, sample 1000 None None None]"

definition c4_segments :: "segment list" where
  "c4_segments = [\<lparr>startRecordIndex = 0, endRecordIndex = 0, sport = ''running''\<rparr>,
                  \<lparr>startRecordIndex = 1, endRecordIndex = 1, sport = ''cycling''\<rparr>]"

definition c1_raw :: "unit mesg list" where
  "c1_raw = [\<lparr>mesgNum = FILE_ID, data = [(''type'', Str ''activity'')]\<rparr>,
             \<lparr>mesgNum = RECORD, data = [(''timestamp'', Num 1000000000)]\<rparr>,
             \<lparr>mesgNum = EVENT, data = [(''event'', Str ''timer'')]\<rparr>,
             \<lparr>mesgNum = RECORD, data = [(''timestamp'', Num 1000000001)]\<rparr>,
             \<lparr>mesgNum = SESSION, data = [(''sport'', Str ''running'')]\<rparr>]"


text \<open>
  A recording of 100 samples in which only the last one carries a speed (5 m/s), with the
  values of each detection pass on it.
\<close>

definition c7_records :: "fit_record list" where
  "c7_records = map (\<lambda>i. sample (1000 * int i) (if i < 99 then None else Some 5) None None) [0..<100]"

definition c7_profile :: "rat list" where
  "c7_profile = replicate 89 0 @ replicate 11 18"

definition c7_derivative :: "rat list" where
  "c7_derivative = replicate 84 0 @ replicate 10 18 @ replicate 6 0"

definition c7_smooth :: "rat list" where
  "c7_smooth = replicate 79 0 @ [18 / 11, 36 / 11, 54 / 11, 72 / 11, 90 / 11, 108 / 11,
     126 / 11, 144 / 11, 162 / 11, 180 / 11, 180 / 11, 162 / 11, 144 / 11, 126 / 11, 108 / 11,
     90 / 11, 36 / 5, 6, 9 / 2, 18 / 7, 0]"

definition c7_candidates :: "(nat \<times> rat) list" where
  "c7_candidates = [(84, 108 / 11), (83, 90 / 11), (82, 72 / 11), (81, 54 / 11), (80, 36 / 11),
     (79, 18 / 11)] @ map (\<lambda>i. (i, 0)) [16..<79]"

section \<open>Properties of the planner\<close>

lemma contiguous_bounds: "contiguous segs = contig_b (map bounds segs)"
  by (induction segs rule: contiguous.induct) (simp_all add: bounds_def)

lemma partition_inv_bounds:
  "partition_inv N segs =
     (segs \<noteq> [] \<and> fst (hd (map bounds segs)) = 0 \<and> snd (last (map bounds segs)) = N - 1
      \<and> contig_b (map bounds segs) \<and> list_all (\<lambda>b. fst b \<le> snd b) (map bounds segs))"
  by (cases "segs = []")
     (auto simp: partition_inv_def contiguous_bounds hd_map last_map list_all_iff bounds_def)

lemma cuts_index_map:
  "map (\<lambda>i. ((a # cs @ [e]) ! i,
             if i = length (a # cs @ [e]) - 2 then (a # cs @ [e]) ! (i + 1)
             else (a # cs @ [e]) ! (i + 1) - 1))
       [0..<length (a # cs @ [e]) - 1] = seg_bounds a cs e"
proof (induction cs arbitrary: a)
  case Nil
  show ?case by simp
next
  case (Cons c cs)
  have upt: "[0..<length (a # (c # cs) @ [e]) - 1] = 0 # map Suc [0..<length (c # cs @ [e]) - 1]"
    by (simp add: upt_conv_Cons map_Suc_upt del: upt_Suc)
  show ?case
    unfolding upt using Cons.IH [of c]
    by (simp add: comp_def del: upt_Suc cong del: if_weak_cong)
qed

lemma build_bounds:
  "map bounds (buildSegmentsFromCuts records old cuts) =
     seg_bounds 0 cuts (int (length records) - 1)"
proof -
  have "map bounds (buildSegmentsFromCuts records old cuts) =
     map (\<lambda>i. ((0 # cuts @ [int (length records) - 1]) ! i,
             if i = length (0 # cuts @ [int (length records) - 1]) - 2
             then (0 # cuts @ [int (length records) - 1]) ! (i + 1)
             else (0 # cuts @ [int (length records) - 1]) ! (i + 1) - 1))
       [0..<length (0 # cuts @ [int (length records) - 1]) - 1]"
    by (simp add: buildSegmentsFromCuts_def Let_def bounds_def comp_def del: upt_Suc)
  then show ?thesis by (simp only: cuts_index_map)
qed

lemma seg_bounds_props:
  "sorted_wrt (<) cs \<Longrightarrow> \<forall>c\<in>set cs. a < c \<and> c \<le> e \<Longrightarrow> a \<le> e \<Longrightarrow>
     seg_bounds a cs e \<noteq> [] \<and> fst (hd (seg_bounds a cs e)) = a
     \<and> snd (last (seg_bounds a cs e)) = e
     \<and> contig_b (seg_bounds a cs e)
     \<and> list_all (\<lambda>b. fst b \<le> snd b) (seg_bounds a cs e)"
proof (induction cs arbitrary: a)
  case Nil
  then show ?case by simp
next
  case (Cons c cs)
  have "seg_bounds c cs e \<noteq> [] \<and> fst (hd (seg_bounds c cs e)) = c
     \<and> snd (last (seg_bounds c cs e)) = e
     \<and> contig_b (seg_bounds c cs e)
     \<and> list_all (\<lambda>b. fst b \<le> snd b) (seg_bounds c cs e)"
    using Cons.prems by (intro Cons.IH) auto
  then show ?case using Cons.prems
    by (cases "seg_bounds c cs e") auto
qed

lemma contiguous_append:
  "contiguous (xs @ ys) =
     (contiguous xs \<and> contiguous ys \<and>
      (xs \<noteq> [] \<and> ys \<noteq> [] \<longrightarrow> endRecordIndex (last xs) + 1 = startRecordIndex (hd ys)))"
proof (induction xs rule: contiguous.induct)
  case 1
  show ?case by simp
next
  case (2 s)
  show ?case by (cases ys) auto
next
  case (3 s t rest)
  then show ?case by auto
qed

lemma merge_next:
  assumes "length xs = j"
  shows "mergeWithNeighbour (xs @ s # t # ys) (int j) =
           Inr (xs @ t\<lparr>startRecordIndex := startRecordIndex s\<rparr> # ys)"
  using assms by (simp add: mergeWithNeighbour_def Let_def nth_append list_update_append)

lemma merge_last:
  assumes "length xs = j"
  shows "mergeWithNeighbour (xs @ [s, t]) (int j + 1) =
           Inr (xs @ [s\<lparr>endRecordIndex := endRecordIndex t\<rparr>])"
  using assms by (simp add: mergeWithNeighbour_def Let_def nth_append list_update_append nat_add_distrib)

lemma partition_inv_merge_next:
  assumes "partition_inv N (xs @ s # t # ys)"
  shows "partition_inv N (xs @ t\<lparr>startRecordIndex := startRecordIndex s\<rparr> # ys)"
proof -
  have c: "\<And>v. contiguous (t\<lparr>startRecordIndex := v\<rparr> # ys) = contiguous (t # ys)"
    by (cases ys) simp_all
  show ?thesis
    using assms
    by (cases "xs = []"; cases "ys = []")
       (auto simp: partition_inv_def contiguous_append hd_append c)
qed

lemma partition_inv_merge_last:
  assumes "partition_inv N (xs @ [s, t])"
  shows "partition_inv N (xs @ [s\<lparr>endRecordIndex := endRecordIndex t\<rparr>])"
  using assms by (cases "xs = []") (auto simp: partition_inv_def contiguous_append hd_append)

lemma split_at_two:
  assumes "Suc j < length segs"
  shows "\<exists>xs s t ys. segs = xs @ s # t # ys \<and> length xs = j"
proof -
  have "segs = take j segs @ segs ! j # segs ! Suc j # drop (Suc (Suc j)) segs"
    using assms by (metis Cons_nth_drop_Suc Suc_lessD append_take_drop_id)
  moreover have "length (take j segs) = j" using assms by simp
  ultimately show ?thesis by blast
qed

lemma merge_preserves:
  assumes inv: "partition_inv N segs" and len: "2 \<le> length segs"
    and lo: "0 \<le> segIdx" and hi: "segIdx < int (length segs)"
  shows "\<exists>merged. mergeWithNeighbour segs segIdx = Inr merged \<and> partition_inv N merged
           \<and> length merged = length segs - 1"
proof (cases "segIdx < int (length segs) - 1")
  case True
  then have "Suc (nat segIdx) < length segs" using lo by linarith
  then obtain xs s t ys where segs: "segs = xs @ s # t # ys" and j: "length xs = nat segIdx"
    using split_at_two by blast
  have "mergeWithNeighbour segs (int (nat segIdx)) =
          Inr (xs @ t\<lparr>startRecordIndex := startRecordIndex s\<rparr> # ys)"
    unfolding segs by (rule merge_next [OF j])
  then show ?thesis using inv lo partition_inv_merge_next [of N xs s t ys] by (simp add: segs)
next
  case False
  then have last: "segIdx = int (length segs) - 1" using hi by linarith
  then have "Suc (nat (segIdx - 1)) < length segs" using len by linarith
  then obtain xs s t ys where segs: "segs = xs @ s # t # ys" and j: "length xs = nat (segIdx - 1)"
    using split_at_two by blast
  have "length segs = length xs + 2 + length ys" by (simp add: segs)
  moreover have "int (length xs) = segIdx - 1" using j last len by linarith
  ultimately have "length ys = 0" using last by linarith
  then have ys: "ys = []" by simp
  have "mergeWithNeighbour segs (int (nat (segIdx - 1)) + 1) =
          Inr (xs @ [s\<lparr>endRecordIndex := endRecordIndex t\<rparr>])"
    unfolding segs ys by (rule merge_last [OF j])
  moreover have "int (nat (segIdx - 1)) + 1 = segIdx" using last len by linarith
  ultimately show ?thesis using inv partition_inv_merge_last [of N xs s t] by (simp add: segs ys)
qed

lemma seg_bounds_of_valid:
  "bs \<noteq> [] \<Longrightarrow> contig_b bs \<Longrightarrow> fst (hd bs) = a \<Longrightarrow> snd (last bs) = e \<Longrightarrow>
     seg_bounds a (map fst (tl bs)) e = bs"
proof (induction bs arbitrary: a rule: contig_b.induct)
  case 1
  then show ?case by simp
next
  case (2 s)
  then show ?case by (cases s) simp
next
  case (3 s t rest)
  then show ?case by (cases s) auto
qed

lemma bounds_of_valid:
  assumes "partition_inv N segs"
  shows "seg_bounds 0 (map startRecordIndex (drop 1 segs)) (N - 1) = map bounds segs"
proof -
  have "map startRecordIndex (drop 1 segs) = map fst (tl (map bounds segs))"
    by (simp add: drop_Suc map_tl bounds_def comp_def)
  moreover have "seg_bounds 0 (map fst (tl (map bounds segs))) (N - 1) = map bounds segs"
    using assms by (intro seg_bounds_of_valid) (auto simp: partition_inv_bounds)
  ultimately show ?thesis by simp
qed

lemma length_build [simp]:
  "length (buildSegmentsFromCuts records old cuts) = Suc (length cuts)"
  by (simp add: buildSegmentsFromCuts_def Let_def)

lemma sport_build_carry:
  "i < length old \<Longrightarrow> i \<le> length cuts \<Longrightarrow>
     sport (buildSegmentsFromCuts records old cuts ! i) = sport (old ! i)"
proof -
  assume i: "i < length old" and le: "i \<le> length cuts"
  then have "0 < length old" by linarith
  with i le show ?thesis
    unfolding buildSegmentsFromCuts_def Let_def
    by (subst nth_map) (auto simp del: upt_Suc)
qed

lemma segment_list_eqI:
  fixes xs ys :: "segment list"
  assumes "map bounds xs = map bounds ys" and "map sport xs = map sport ys"
  shows "xs = ys"
  using assms
proof (induction xs arbitrary: ys)
  case Nil
  then show ?case by simp
next
  case (Cons x xs)
  then show ?case by (cases ys) (auto simp: bounds_def)
qed

lemma rebuild_id:
  assumes "partition_inv (int (length records)) segs"
  shows "buildSegmentsFromCuts records segs (map startRecordIndex (drop 1 segs)) = segs"
proof (rule segment_list_eqI)
  show "map bounds (buildSegmentsFromCuts records segs (map startRecordIndex (drop 1 segs))) =
          map bounds segs"
    using bounds_of_valid [OF assms] by (simp add: build_bounds)
next
  have ne: "segs \<noteq> []" using assms by (simp add: partition_inv_def)
  then have len: "length (buildSegmentsFromCuts records segs (map startRecordIndex (drop 1 segs))) = length segs"
    by (cases segs) simp_all
  show "map sport (buildSegmentsFromCuts records segs (map startRecordIndex (drop 1 segs))) =
          map sport segs"
  proof (rule nth_equalityI)
    show "length (map sport (buildSegmentsFromCuts records segs (map startRecordIndex (drop 1 segs)))) =
            length (map sport segs)" using len by simp
  next
    fix i
    assume "i < length (map sport (buildSegmentsFromCuts records segs (map startRecordIndex (drop 1 segs))))"
    then have i: "i < length segs" using len by simp
    then have "i \<le> length (map startRecordIndex (drop 1 segs))" by simp
    from sport_build_carry [OF i this] i len
    show "map sport (buildSegmentsFromCuts records segs (map startRecordIndex (drop 1 segs))) ! i =
            map sport segs ! i" by simp
  qed
qed

text \<open>
  Claim C2 (partition invariant). For an activity with at least one record, each planner
  operation returns a segment list that starts at 0, ends at \<open>N - 1\<close>, has
  \<open>segments[i].endIndex + 1 = segments[i+1].startIndex\<close> throughout and no segment with
  its start after its end: \<open>resetSegments\<close>; \<open>buildSegmentsFromCuts\<close> on strictly
  ascending cuts inside \<open>(0, N - 1)\<close>; \<open>removeSegmentCut\<close> at an existing index of a
  list of two or more segments that satisfies the invariant.
\<close>

theorem partition_invariant:
  assumes "records \<noteq> []"
  shows "partition_inv (int (length records)) (resetSegments records summarySport)
     \<and> (sorted_wrt (<) cuts \<and> (\<forall>c\<in>set cuts. 0 < c \<and> c < int (length records) - 1)
          \<longrightarrow> partition_inv (int (length records)) (buildSegmentsFromCuts records old cuts))
     \<and> (partition_inv (int (length records)) segs \<and> 2 \<le> length segs
          \<and> 0 \<le> segIdx \<and> segIdx < int (length segs)
          \<longrightarrow> (\<exists>segs'. removeSegmentCut chartInstance records segs segIdx = Inr segs'
                 \<and> partition_inv (int (length records)) segs'))"
proof (intro conjI impI)
  show "partition_inv (int (length records)) (resetSegments records summarySport)"
    using assms by (cases records) (simp_all add: partition_inv_def resetSegments_def)
next
  assume cuts: "sorted_wrt (<) cuts \<and> (\<forall>c\<in>set cuts. 0 < c \<and> c < int (length records) - 1)"
  have "0 \<le> int (length records) - 1" using assms by (cases records) simp_all
  with cuts have "seg_bounds 0 cuts (int (length records) - 1) \<noteq> []
     \<and> fst (hd (seg_bounds 0 cuts (int (length records) - 1))) = 0
     \<and> snd (last (seg_bounds 0 cuts (int (length records) - 1))) = int (length records) - 1
     \<and> contig_b (seg_bounds 0 cuts (int (length records) - 1))
     \<and> list_all (\<lambda>b. fst b \<le> snd b) (seg_bounds 0 cuts (int (length records) - 1))"
    by (intro seg_bounds_props) auto
  moreover have "buildSegmentsFromCuts records old cuts \<noteq> []"
    by (simp add: buildSegmentsFromCuts_def Let_def)
  ultimately show "partition_inv (int (length records)) (buildSegmentsFromCuts records old cuts)"
    by (simp add: partition_inv_bounds build_bounds)
next
  assume h: "partition_inv (int (length records)) segs \<and> 2 \<le> length segs
          \<and> 0 \<le> segIdx \<and> segIdx < int (length segs)"
  then obtain merged where m: "mergeWithNeighbour segs segIdx = Inr merged"
      and inv: "partition_inv (int (length records)) merged"
    using merge_preserves [of "int (length records)" segs segIdx] by blast
  have "setCutMarkers chartInstance records merged (map startRecordIndex (drop 1 merged)) = merged"
    using rebuild_id [OF inv] by (simp add: setCutMarkers_def)
  with m inv h
  show "\<exists>segs'. removeSegmentCut chartInstance records segs segIdx = Inr segs'
                 \<and> partition_inv (int (length records)) segs'"
    by (simp add: removeSegmentCut_def)
qed

theorem partition_invariant_witness:
  "w_records \<noteq> []
   \<and> partition_inv 10 (resetSegments w_records ''cycling'')
   \<and> sorted_wrt (<) [3, 6 :: int]
   \<and> partition_inv 10 (buildSegmentsFromCuts w_records [] [3, 6])
   \<and> partition_inv 10 [\<lparr>startRecordIndex = 0, endRecordIndex = 2, sport = ''running''\<rparr>,
                        \<lparr>startRecordIndex = 3, endRecordIndex = 9, sport = ''cycling''\<rparr>]
   \<and> (\<exists>segs'. removeSegmentCut True w_records
                 [\<lparr>startRecordIndex = 0, endRecordIndex = 2, sport = ''running''\<rparr>,
                  \<lparr>startRecordIndex = 3, endRecordIndex = 9, sport = ''cycling''\<rparr>] 0 = Inr segs'
              \<and> partition_inv 10 segs')"
proof -
  have ne: "w_records \<noteq> []" by (simp add: w_records_def)
  have len: "int (length w_records) = 10" by (simp add: w_records_def)
  have p: "partition_inv 10 [\<lparr>startRecordIndex = 0, endRecordIndex = 2, sport = ''running''\<rparr>,
                        \<lparr>startRecordIndex = 3, endRecordIndex = 9, sport = ''cycling''\<rparr>]"
    by (simp add: partition_inv_def)
  show ?thesis
    using partition_invariant [OF ne, of "''cycling''" "[3, 6]" "[]"
        "[\<lparr>startRecordIndex = 0, endRecordIndex = 2, sport = ''running''\<rparr>,
          \<lparr>startRecordIndex = 3, endRecordIndex = 9, sport = ''cycling''\<rparr>]" 0 True] ne p
    by (simp add: len)
qed

subsection \<open>Removing the only segment\<close>

text \<open>
  Claim C9 as stated does not hold: on a list of one segment \<open>removeSegmentCut\<close> returns
  normally, with the list as it was; nothing is raised.
\<close>

theorem removeCut_single_counterexample:
  "removeSegmentCut True w_records single_segment 0 = Inr single_segment
   \<and> \<not> isl (removeSegmentCut True w_records single_segment 0)"
  by (simp add: removeSegmentCut_def single_segment_def)

text \<open>
  Claim C9, amended. \<open>removeSegmentCut\<close> on a list of at most one segment is a silent
  no-op: it returns normally, raises no error, and leaves the list unchanged.
\<close>

theorem removeCut_single_noop:
  "length segs \<le> 1 \<Longrightarrow> removeSegmentCut chartInstance records segs segIdx = Inr segs"
  by (simp add: removeSegmentCut_def)

theorem removeCut_single_noop_witness:
  "length single_segment \<le> 1 \<and> removeSegmentCut True w_records single_segment 0 = Inr single_segment"
proof -
  have l: "length single_segment \<le> 1" by (simp add: single_segment_def)
  show ?thesis using removeCut_single_noop [OF l, of True w_records 0] l by simp
qed

subsection \<open>Scenario A: the speed heuristic\<close>

lemma length_js_slice:
  "0 \<le> a \<Longrightarrow> a \<le> b \<Longrightarrow> b \<le> int (length xs) \<Longrightarrow> length (js_slice xs a b) = nat (b - a)"
  by (auto simp: js_slice_def Let_def)

lemma set_js_slice: "set (js_slice xs a b) \<subseteq> set xs"
  unfolding js_slice_def Let_def
  by (meson set_take_subset set_drop_subset subset_trans)

lemma map_filter_const:
  "\<forall>r\<in>set rs. f r = Some v \<Longrightarrow> List.map_filter f rs = replicate (length rs) v"
  by (induction rs) (simp_all add: List.map_filter_simps)

lemma computeAvgSpeed_const:
  assumes "\<forall>r\<in>set rs. speed r = Some v" and "rs \<noteq> []"
  shows "computeAvgSpeed rs = v * (18 / 5)"
proof -
  have m: "List.map_filter speed rs = replicate (length rs) v"
    using assms(1) by (rule map_filter_const)
  have n: "rat_of_nat (length rs) \<noteq> 0" using assms(2) by simp
  have "computeAvgSpeed rs = (rat_of_nat (length rs) * (v * (18 / 5))) / rat_of_nat (length rs)"
    using assms(2) unfolding computeAvgSpeed_def Let_def m
    by (simp add: sum_list_replicate)
  also have "\<dots> = v * (18 / 5)" using n by simp
  finally show ?thesis .
qed

lemma avg_slice:
  assumes len: "length records = 1000" and sp: "\<forall>r\<in>set records. speed r = Some 10"
   and ab: "0 \<le> a" "a < b" "b \<le> 1000"
  shows "computeAvgSpeed (js_slice records a b) = 36"
proof -
  have "length (js_slice records a b) = nat (b - a)"
    using len ab by (intro length_js_slice) simp_all
  then have "0 < length (js_slice records a b)" using ab by linarith
  then have ne: "js_slice records a b \<noteq> []" by blast
  have all: "\<forall>r\<in>set (js_slice records a b). speed r = Some 10"
    using sp set_js_slice [of records a b] by auto
  have "computeAvgSpeed (js_slice records a b) = 10 * (18 / 5)"
    using all ne by (rule computeAvgSpeed_const)
  then show ?thesis by simp
qed

lemma build_scenarioA:
  assumes len: "length records = 1000" and sp: "\<forall>r\<in>set records. speed r = Some 10"
  shows "buildSegmentsFromCuts records [] [500] =
           [\<lparr>startRecordIndex = 0, endRecordIndex = 499, sport = ''cycling''\<rparr>,
            \<lparr>startRecordIndex = 500, endRecordIndex = 999, sport = ''cycling''\<rparr>]"
proof -
  have a: "computeAvgSpeed (js_slice records 0 500) = 36"
    using avg_slice [OF len sp, of 0 500] by simp
  have b: "computeAvgSpeed (js_slice records 500 1000) = 36"
    using avg_slice [OF len sp, of 500 1000] by simp
  show ?thesis
    unfolding buildSegmentsFromCuts_def Let_def
    by (simp add: len a b)
qed

lemma scenarioA_facts:
  "length scenarioA_records = 1000" "\<forall>r\<in>set scenarioA_records. speed r = Some 10"
  by (auto simp: scenarioA_records_def)

text \<open>
  Claim C5 as stated does not hold: on scenario A with no earlier segments the guessed
  sports are not \<open>running\<close>, \<open>running\<close>.
\<close>

theorem scenarioA_running_counterexample:
  "map sport (buildSegmentsFromCuts scenarioA_records [] [500]) \<noteq> [''running'', ''running'']"
  using build_scenarioA [OF scenarioA_facts] by simp

text \<open>
  Claim C5, amended. For 1000 samples that all have speed 10 m/s, the cut list \<open>[500]\<close>
  gives exactly the segments \<open>[0, 499]\<close> and \<open>[500, 999]\<close>, and with no earlier segment
  to carry a sport over both are guessed \<open>cycling\<close>: the mean speed is 36 km/h, above 20.
\<close>

theorem scenarioA_cycling:
  assumes len: "length records = 1000" and sp: "\<forall>r\<in>set records. speed r = Some 10"
  shows "map bounds (buildSegmentsFromCuts records old [500]) = [(0, 499), (500, 999)]
     \<and> map sport (buildSegmentsFromCuts records [] [500]) = [''cycling'', ''cycling'']"
  using build_scenarioA [OF len sp] by (simp add: build_bounds len)

theorem scenarioA_cycling_witness:
  "length scenarioA_records = 1000
   \<and> map bounds (buildSegmentsFromCuts scenarioA_records [] [500]) = [(0, 499), (500, 999)]
   \<and> map sport (buildSegmentsFromCuts scenarioA_records [] [500]) = [''cycling'', ''cycling'']"
  using scenarioA_cycling [OF scenarioA_facts, of "[]"] scenarioA_facts(1) by simp

subsection \<open>Cuts near the ends\<close>

text \<open>
  Claim C3 as stated does not hold: for 1000 records \<open>buildSegmentsFromCuts\<close> accepts the
  cut 2 and produces the segments \<open>[0, 1]\<close> and \<open>[2, 999]\<close>.
\<close>

theorem boundary_cut_counterexample:
  "map bounds (buildSegmentsFromCuts scenarioA_records [] [2]) = [(0, 1), (2, 999)]"
  by (simp add: build_bounds scenarioA_facts)

text \<open>
  Claim C3, amended. \<open>buildSegmentsFromCuts\<close> checks no cut and returns a segment list
  with one more segment than cuts, for every cut list. The boundary guard is in the chart's
  click handler: a click on no existing marker leaves the markers and the segment list as
  they were exactly when the clicked chart point has a record index and that index is below
  5 or above \<open>N - 5\<close>.
\<close>

theorem boundary_guard_in_click_handler:
  "length (buildSegmentsFromCuts records old cuts) = length cuts + 1
   \<and> ((handleChartClick records closestIdx None st = (fst st, Some (snd st)))
        = (closestIdx < length (indexMap (length records))
           \<and> (indexMap (length records) ! closestIdx < 5
                \<or> indexMap (length records) ! closestIdx > int (length records) - 5)))"
proof -
  have "length (sort (fst st @ [closestIdx])) \<noteq> length (fst st)" by simp
  then have ne: "sort (fst st @ [closestIdx]) \<noteq> fst st" by metis
  show ?thesis
    using ne by (auto simp: handleChartClick_def Let_def indexMapAt_def)
qed

theorem boundary_guard_in_click_handler_witness:
  "2 < length (indexMap (length scenarioA_records))
   \<and> indexMap (length scenarioA_records) ! 2 = 2
   \<and> length (buildSegmentsFromCuts scenarioA_records [] [2]) = 2
   \<and> handleChartClick scenarioA_records 2 None ([], resetSegments scenarioA_records ''running'')
       = ([], Some (resetSegments scenarioA_records ''running''))
   \<and> handleChartClick [] 0 None ([], []) \<noteq> ([], Some [])"
proof -
  have l: "2 < length (indexMap (length scenarioA_records))"
    by (simp add: scenarioA_facts indexMap_def chartStep_def)
  have i: "indexMap (length scenarioA_records) ! 2 = 2"
    by (simp add: scenarioA_facts indexMap_def chartStep_def)
  have e: "length (indexMap (length ([] :: fit_record list))) = 0"
    by (simp add: indexMap_def chartStep_def)
  have a: "handleChartClick scenarioA_records 2 None ([], resetSegments scenarioA_records ''running'')
       = ([], Some (resetSegments scenarioA_records ''running''))"
    using boundary_guard_in_click_handler [of scenarioA_records "[]" "[2]" 2
            "([], resetSegments scenarioA_records ''running'')"] l i
    by simp
  have b: "handleChartClick [] 0 None ([], []) \<noteq> ([], Some [])"
    using boundary_guard_in_click_handler [of "[]" "[]" "[]" 0 "([], [])"] e
    by simp
  have c: "length (buildSegmentsFromCuts scenarioA_records [] [2]) = 2"
    using boundary_guard_in_click_handler [of scenarioA_records "[]" "[2]" 2 "([], [])"]
    by simp
  show ?thesis using l i a b c by blast
qed

subsection \<open>Inserting a cut and removing it again\<close>

lemma merge_b_Suc: "merge_b (Suc j) (b # bs) = b # merge_b j bs"
  by (simp add: merge_b_def)

lemma filter_less_sorted_empty:
  "sorted_wrt (<) (x # xs) \<Longrightarrow> c < x \<Longrightarrow> filter (\<lambda>y. y < c) (x # xs) = []"
  for c :: int
  by (auto simp: filter_empty_conv)

lemma merge_b_insort:
  fixes c :: int
  assumes "sorted_wrt (<) cs" and "c \<notin> set cs"
  shows "merge_b (length (filter (\<lambda>x. x < c) cs)) (seg_bounds a (insort c cs) e) =
           seg_bounds a cs e"
  using assms
proof (induction cs arbitrary: a)
  case Nil
  show ?case by (simp add: merge_b_def)
next
  case (Cons x xs)
  show ?case
  proof (cases "c < x")
    case True
    then have "filter (\<lambda>y. y < c) (x # xs) = []"
      using Cons.prems(1) by (rule_tac filter_less_sorted_empty)
    then show ?thesis using True by (simp add: merge_b_def)
  next
    case False
    then have gt: "x < c" using Cons.prems(2) by auto
    have "merge_b (length (filter (\<lambda>x. x < c) xs)) (seg_bounds x (insort c xs) e) =
            seg_bounds x xs e"
      using Cons.prems by (intro Cons.IH) auto
    then show ?thesis using gt by (simp add: merge_b_Suc)
  qed
qed

lemma cuts_of_valid_b:
  "contig_b bs \<Longrightarrow> list_all (\<lambda>b. fst b \<le> snd b) bs \<Longrightarrow> bs \<noteq> [] \<Longrightarrow>
     sorted_wrt (<) (map fst (tl bs))
     \<and> (\<forall>x\<in>set (map fst (tl bs)). fst (hd bs) < x \<and> x \<le> snd (last bs))
     \<and> fst (hd bs) \<le> snd (last bs)"
proof (induction bs rule: contig_b.induct)
  case 1
  then show ?case by simp
next
  case (2 s)
  then show ?case by simp
next
  case (3 s t rest)
  then have IH: "sorted_wrt (<) (map fst rest)
     \<and> (\<forall>x\<in>set (map fst rest). fst t < x \<and> x \<le> snd (last (t # rest)))
     \<and> fst t \<le> snd (last (t # rest))" by simp
  from "3.prems" have st: "fst s \<le> snd s" "snd s + 1 = fst t" by simp_all
  then have "fst s < fst t" by linarith
  moreover have "last (s # t # rest) = last (t # rest)" by simp
  ultimately show ?case using IH st unfolding \<open>last (s # t # rest) = last (t # rest)\<close>
    by (auto simp del: last.simps)
qed

lemma cuts_of_valid:
  assumes "partition_inv N segs"
  shows "sorted_wrt (<) (map startRecordIndex (drop 1 segs))"
    and "\<forall>x\<in>set (map startRecordIndex (drop 1 segs)). 0 < x \<and> x \<le> N - 1"
    and "0 \<le> N - 1"
proof -
  have eq: "map startRecordIndex (drop 1 segs) = map fst (tl (map bounds segs))"
    by (simp add: drop_Suc map_tl bounds_def comp_def)
  have "sorted_wrt (<) (map fst (tl (map bounds segs)))
     \<and> (\<forall>x\<in>set (map fst (tl (map bounds segs))).
           fst (hd (map bounds segs)) < x \<and> x \<le> snd (last (map bounds segs)))
     \<and> fst (hd (map bounds segs)) \<le> snd (last (map bounds segs))"
    using assms by (intro cuts_of_valid_b) (auto simp: partition_inv_bounds)
  moreover have "fst (hd (map bounds segs)) = 0" "snd (last (map bounds segs)) = N - 1"
    using assms by (auto simp: partition_inv_bounds)
  ultimately show "sorted_wrt (<) (map startRecordIndex (drop 1 segs))"
    and "\<forall>x\<in>set (map startRecordIndex (drop 1 segs)). 0 < x \<and> x \<le> N - 1"
    and "0 \<le> N - 1"
    unfolding eq by auto
qed

lemma build_valid:
  assumes "sorted_wrt (<) cuts" and "\<forall>c\<in>set cuts. 0 < c \<and> c \<le> int (length records) - 1"
    and "0 \<le> int (length records) - 1"
  shows "partition_inv (int (length records)) (buildSegmentsFromCuts records old cuts)"
proof -
  have "seg_bounds 0 cuts (int (length records) - 1) \<noteq> []
     \<and> fst (hd (seg_bounds 0 cuts (int (length records) - 1))) = 0
     \<and> snd (last (seg_bounds 0 cuts (int (length records) - 1))) = int (length records) - 1
     \<and> contig_b (seg_bounds 0 cuts (int (length records) - 1))
     \<and> list_all (\<lambda>b. fst b \<le> snd b) (seg_bounds 0 cuts (int (length records) - 1))"
    using assms by (intro seg_bounds_props) auto
  moreover have "buildSegmentsFromCuts records old cuts \<noteq> []"
    by (simp add: buildSegmentsFromCuts_def Let_def)
  ultimately show ?thesis
    by (simp add: partition_inv_bounds build_bounds)
qed

lemma sorted_wrt_less_insort:
  fixes c :: int
  shows "sorted_wrt (<) cs \<Longrightarrow> c \<notin> set cs \<Longrightarrow> sorted_wrt (<) (insort c cs)"
  by (induction cs) (auto simp: set_insort_key)

lemma remove_after_build:
  assumes inv: "partition_inv (int (length records)) segs'"
    and j: "Suc j < length segs'"
  shows "\<exists>segs''. removeSegmentCut chartInstance records segs' (int j) = Inr segs''
           \<and> map bounds segs'' = merge_b j (map bounds segs')"
proof -
  obtain xs s t ys where segs: "segs' = xs @ s # t # ys" and len: "length xs = j"
    using split_at_two [OF j] by blast
  have m: "mergeWithNeighbour segs' (int j) =
          Inr (xs @ t\<lparr>startRecordIndex := startRecordIndex s\<rparr> # ys)"
    unfolding segs by (rule merge_next [OF len])
  have inv': "partition_inv (int (length records))
                (xs @ t\<lparr>startRecordIndex := startRecordIndex s\<rparr> # ys)"
    using inv unfolding segs by (rule partition_inv_merge_next)
  have "setCutMarkers chartInstance records (xs @ t\<lparr>startRecordIndex := startRecordIndex s\<rparr> # ys)
          (map startRecordIndex (drop 1 (xs @ t\<lparr>startRecordIndex := startRecordIndex s\<rparr> # ys)))
        = xs @ t\<lparr>startRecordIndex := startRecordIndex s\<rparr> # ys"
    using rebuild_id [OF inv'] by (simp add: setCutMarkers_def)
  then have r: "removeSegmentCut chartInstance records segs' (int j) =
           Inr (xs @ t\<lparr>startRecordIndex := startRecordIndex s\<rparr> # ys)"
    using m j by (simp add: removeSegmentCut_def)
  have "map bounds (xs @ t\<lparr>startRecordIndex := startRecordIndex s\<rparr> # ys) =
          merge_b j (map bounds segs')"
    using len by (simp add: segs merge_b_def bounds_def nth_append)
  with r show ?thesis by simp
qed

lemma remove_restores_bounds:
  assumes inv: "partition_inv (int (length records)) segs"
    and c: "0 < c" "c < int (length records) - 1"
    and new: "c \<notin> set (map startRecordIndex (drop 1 segs))"
  shows "\<exists>segs''.
           removeSegmentCut chartInstance records
             (buildSegmentsFromCuts records segs (insort c (map startRecordIndex (drop 1 segs))))
             (int (length (filter (\<lambda>x. x < c) (map startRecordIndex (drop 1 segs))))) = Inr segs''
           \<and> map bounds segs'' = map bounds segs"
proof -
  let ?cs = "map startRecordIndex (drop 1 segs)"
  let ?j = "length (filter (\<lambda>x. x < c) ?cs)"
  let ?S' = "buildSegmentsFromCuts records segs (insort c ?cs)"
  note cv = cuts_of_valid [OF inv]
  have s: "sorted_wrt (<) (insort c ?cs)" using cv(1) new by (rule sorted_wrt_less_insort)
  have r: "\<forall>x\<in>set (insort c ?cs). 0 < x \<and> x \<le> int (length records) - 1"
    using cv(2) c by (auto simp: set_insort_key)
  have inv': "partition_inv (int (length records)) ?S'"
    using s r cv(3) by (rule build_valid)
  have "?j \<le> length ?cs" by (rule length_filter_le)
  then have j: "Suc ?j < length ?S'" by (simp del: length_map length_drop)
  obtain segs'' where rm: "removeSegmentCut chartInstance records ?S' (int ?j) = Inr segs''"
    and b: "map bounds segs'' = merge_b ?j (map bounds ?S')"
    using remove_after_build [OF inv' j] by blast
  have "merge_b ?j (map bounds ?S') = seg_bounds 0 ?cs (int (length records) - 1)"
    using merge_b_insort [OF cv(1) new] by (simp add: build_bounds)
  also have "\<dots> = map bounds segs" by (rule bounds_of_valid [OF inv])
  finally show ?thesis using rm b by simp
qed

lemma seg_bounds_nth_start:
  "i < length cs \<Longrightarrow> fst (seg_bounds a cs e ! Suc i) = cs ! i"
proof (induction cs arbitrary: a i)
  case Nil
  then show ?case by simp
next
  case (Cons x xs)
  show ?case
  proof (cases i)
    case 0
    then show ?thesis by (cases xs) simp_all
  next
    case (Suc k)
    then show ?thesis using Cons.IH [of k x] Cons.prems by simp
  qed
qed

lemma insort_nth_new:
  fixes c :: int
  shows "sorted_wrt (<) cs \<Longrightarrow> c \<notin> set cs \<Longrightarrow>
           insort c cs ! length (filter (\<lambda>x. x < c) cs) = c"
proof (induction cs)
  case Nil
  show ?case by simp
next
  case (Cons x xs)
  show ?case
  proof (cases "c < x")
    case True
    then have "filter (\<lambda>y. y < c) (x # xs) = []"
      using Cons.prems(1) by (rule_tac filter_less_sorted_empty)
    then show ?thesis using True by simp
  next
    case False
    then have "x < c" using Cons.prems(2) by auto
    then show ?thesis using Cons by simp
  qed
qed

text \<open>
  Claim C8 (cut/merge inverse). Let \<open>segs\<close> be a valid segment list over the records and
  \<open>c\<close> a new cut strictly inside \<open>(0, N - 1)\<close>. After rebuilding from the cuts of
  \<open>segs\<close> with \<open>c\<close> inserted in order, the segment after position \<open>j\<close> starts at \<open>c\<close>,
  where \<open>j\<close> counts the old cuts below \<open>c\<close>; removing the cut at \<open>j\<close> (merging segment
  \<open>j\<close> into its successor) succeeds and gives back the boundaries of \<open>segs\<close>.
\<close>

theorem cut_then_remove:
  assumes inv: "partition_inv (int (length records)) segs"
    and c: "0 < c" "c < int (length records) - 1"
    and new: "c \<notin> set (map startRecordIndex (drop 1 segs))"
  shows "startRecordIndex
           (buildSegmentsFromCuts records segs (insort c (map startRecordIndex (drop 1 segs)))
              ! Suc (length (filter (\<lambda>x. x < c) (map startRecordIndex (drop 1 segs))))) = c
      \<and> (\<exists>segs''.
           removeSegmentCut chartInstance records
             (buildSegmentsFromCuts records segs (insort c (map startRecordIndex (drop 1 segs))))
             (int (length (filter (\<lambda>x. x < c) (map startRecordIndex (drop 1 segs))))) = Inr segs''
           \<and> map bounds segs'' = map bounds segs)"
proof
  let ?cs = "map startRecordIndex (drop 1 segs)"
  let ?j = "length (filter (\<lambda>x. x < c) ?cs)"
  let ?S' = "buildSegmentsFromCuts records segs (insort c ?cs)"
  note cv = cuts_of_valid [OF inv]
  have "?j \<le> length ?cs" by (rule length_filter_le)
  then have j: "?j < length (insort c ?cs)" by (simp del: length_map length_drop)
  then have "Suc ?j < length ?S'" by simp
  then have "startRecordIndex (?S' ! Suc ?j) = fst (map bounds ?S' ! Suc ?j)"
    by (simp add: bounds_def del: length_build)
  also have "\<dots> = insort c ?cs ! ?j"
    unfolding build_bounds using j by (rule seg_bounds_nth_start)
  also have "\<dots> = c" using cv(1) new by (rule insort_nth_new)
  finally show "startRecordIndex (?S' ! Suc ?j) = c" .
next
  show "\<exists>segs''.
           removeSegmentCut chartInstance records
             (buildSegmentsFromCuts records segs (insort c (map startRecordIndex (drop 1 segs))))
             (int (length (filter (\<lambda>x. x < c) (map startRecordIndex (drop 1 segs))))) = Inr segs''
           \<and> map bounds segs'' = map bounds segs"
    using inv c new by (rule remove_restores_bounds)
qed

theorem cut_then_remove_witness:
  "partition_inv (int (length w_records)) two_segments
   \<and> startRecordIndex (buildSegmentsFromCuts w_records two_segments [3, 6] ! 2) = 6
   \<and> (\<exists>segs''. removeSegmentCut True w_records
                  (buildSegmentsFromCuts w_records two_segments [3, 6]) 1 = Inr segs''
               \<and> map bounds segs'' = [(0, 2), (3, 9)])"
proof -
  have len: "int (length w_records) = 10" by (simp add: w_records_def)
  have p: "partition_inv (int (length w_records)) two_segments"
    by (simp add: len partition_inv_def two_segments_def)
  have cs: "map startRecordIndex (drop 1 two_segments) = [3]" by (simp add: two_segments_def)
  have b: "map bounds two_segments = [(0, 2), (3, 9)]" by (simp add: two_segments_def bounds_def)
  note t = cut_then_remove [OF p, of 6 True, unfolded cs b len]
  from t p show ?thesis by (simp add: numeral_2_eq_2)
qed

section \<open>Properties of the segment statistics\<close>

lemma set_map_filter:
  "set (List.map_filter f rs) = {v. \<exists>r\<in>set rs. f r = Some v}"
  by (induction rs) (auto simp: List.map_filter_simps split: option.splits)

lemma fold_max_zero:
  fixes xs :: "'a::{linorder,zero} list"
  shows "set xs \<subseteq> {0} \<Longrightarrow> fold max xs 0 = 0"
  by (induction xs) auto

lemma sum_list_zero:
  fixes xs :: "'a::comm_monoid_add list"
  shows "set xs \<subseteq> {0} \<Longrightarrow> sum_list xs = 0"
  by (induction xs) auto

text \<open>
  Claim C10. On a non-empty slice whose heart rates are all undefined or 0,
  \<open>maxHeartRate\<close> is null, and when a sample with heart rate 0 exists \<open>avgHeartRate\<close> is
  (the rounded) 0; the same holds for \<open>maxSpeed\<close> and \<open>avgSpeed\<close> on a non-empty slice
  whose speeds are all undefined or 0.
\<close>

theorem zero_maxima_are_null:
  assumes "segRecords \<noteq> []"
  shows "((\<forall>r\<in>set segRecords. heartRate r = None \<or> heartRate r = Some 0) \<longrightarrow>
            maxHeartRate (computeSegmentStats segRecords) = None
            \<and> ((\<exists>r\<in>set segRecords. heartRate r = Some 0) \<longrightarrow>
                   avgHeartRate (computeSegmentStats segRecords) = Some 0))
       \<and> ((\<forall>r\<in>set segRecords. speed r = None \<or> speed r = Some 0) \<longrightarrow>
            maxSpeed (computeSegmentStats segRecords) = None
            \<and> ((\<exists>r\<in>set segRecords. speed r = Some 0) \<longrightarrow>
                   avgSpeed (computeSegmentStats segRecords) = Some 0))"
proof (intro conjI impI)
  assume h: "\<forall>r\<in>set segRecords. heartRate r = None \<or> heartRate r = Some 0"
  then have z: "set (List.map_filter heartRate segRecords) \<subseteq> {0}"
    by (auto simp: set_map_filter)
  show "maxHeartRate (computeSegmentStats segRecords) = None"
    using assms by (simp add: computeSegmentStats_def Let_def fold_max_zero [OF z])
  assume "\<exists>r\<in>set segRecords. heartRate r = Some 0"
  then have "0 \<in> set (List.map_filter heartRate segRecords)" by (auto simp: set_map_filter)
  then have "List.map_filter heartRate segRecords \<noteq> []" by auto
  then show "avgHeartRate (computeSegmentStats segRecords) = Some 0"
    using assms by (simp add: computeSegmentStats_def Let_def sum_list_zero [OF z])
next
  assume h: "\<forall>r\<in>set segRecords. speed r = None \<or> speed r = Some 0"
  then have z: "set (List.map_filter speed segRecords) \<subseteq> {0}"
    by (auto simp: set_map_filter)
  show "maxSpeed (computeSegmentStats segRecords) = None"
    using assms by (simp add: computeSegmentStats_def Let_def fold_max_zero [OF z])
  assume "\<exists>r\<in>set segRecords. speed r = Some 0"
  then have "0 \<in> set (List.map_filter speed segRecords)" by (auto simp: set_map_filter)
  then have "List.map_filter speed segRecords \<noteq> []" by auto
  then show "avgSpeed (computeSegmentStats segRecords) = Some 0"
    using assms by (simp add: computeSegmentStats_def Let_def sum_list_zero [OF z])
qed

theorem zero_maxima_are_null_witness:
  "c10_records \<noteq> []
   \<and> list_all (\<lambda>r. heartRate r = None \<or> heartRate r = Some 0) c10_records
   \<and> list_ex (\<lambda>r. heartRate r = Some 0) c10_records
   \<and> maxHeartRate (computeSegmentStats c10_records) = None
   \<and> avgHeartRate (computeSegmentStats c10_records) = Some 0
   \<and> list_all (\<lambda>r. speed r = None \<or> speed r = Some 0) c10_records
   \<and> list_ex (\<lambda>r. speed r = Some 0) c10_records
   \<and> maxSpeed (computeSegmentStats c10_records) = None
   \<and> avgSpeed (computeSegmentStats c10_records) = Some 0"
proof -
  have ne: "c10_records \<noteq> []" by (simp add: c10_records_def)
  have a: "\<forall>r\<in>set c10_records. heartRate r = None \<or> heartRate r = Some 0"
    by (simp add: c10_records_def sample_def)
  have b: "\<exists>r\<in>set c10_records. heartRate r = Some 0"
    by (simp add: c10_records_def sample_def)
  have c: "\<forall>r\<in>set c10_records. speed r = None \<or> speed r = Some 0"
    by (simp add: c10_records_def sample_def)
  have d: "\<exists>r\<in>set c10_records. speed r = Some 0"
    by (simp add: c10_records_def sample_def)
  show ?thesis
    unfolding list_all_iff list_ex_iff
    using zero_maxima_are_null [OF ne] ne a b c d by blast
qed

section \<open>Properties of the reconstruction\<close>

lemma emitted_append [simp]: "emitted n (xs @ ys) = emitted n xs @ emitted n ys"
  by (simp add: emitted_def)

lemma emitted_Nil [simp]: "emitted n [] = []"
  by (simp add: emitted_def)

lemma emitted_Cons:
  "emitted n (m # ms) = (if mesgNum m = n then m # emitted n ms else emitted n ms)"
  by (simp add: emitted_def)

lemma emitted_map_other:
  "k \<noteq> n \<Longrightarrow> emitted n (map (\<lambda>r. \<lparr>mesgNum = k, data = f r\<rparr>) xs) = []"
  by (induction xs) (simp_all add: emitted_Cons)


lemma rawRecordsLoop_slice:
  "rawRecordsLoop msgs s e k =
     take (nat (e + 1 - max s k)) (drop (nat (s - k)) (emitted RECORD msgs))"
proof (induction msgs arbitrary: k)
  case Nil
  show ?case by simp
next
  case (Cons msg rest)
  show ?case
  proof (cases "mesgNum msg = RECORD")
    case False
    then show ?thesis using Cons.IH [of k] by (simp add: emitted_Cons)
  next
    case True
    note rec = this
    consider "k < s" | "s \<le> k" "k \<le> e" | "s \<le> k" "e < k" by linarith
    then show ?thesis
    proof cases
      case 1
      then have d: "nat (s - k) = Suc (nat (s - (k + 1)))" by linarith
      have m: "max s (k + 1) = s" "max s k = s" using 1 by simp_all
      show ?thesis
      proof (cases "k + 1 > e")
        case True
        then have "nat (e + 1 - s) = 0" using 1 by linarith
        then show ?thesis using rec 1 True by (simp add: emitted_Cons m)
      next
        case False
        then show ?thesis using rec 1 Cons.IH [of "k + 1"] by (simp add: emitted_Cons m d)
      qed
    next
      case 2
      then have d: "nat (s - k) = 0" "nat (s - (k + 1)) = 0" by simp_all
      have m: "max s (k + 1) = k + 1" "max s k = k" using 2 by simp_all
      have t: "nat (e + 1 - k) = Suc (nat (e - k))" using 2 by linarith
      show ?thesis
      proof (cases "k + 1 > e")
        case True
        then have "nat (e - k) = 0" by linarith
        then show ?thesis using rec 2 True by (simp add: emitted_Cons m d t)
      next
        case False
        then show ?thesis using rec 2 Cons.IH [of "k + 1"] by (simp add: emitted_Cons m d t)
      qed
    next
      case 3
      then have "nat (e + 1 - max s k) = 0" by linarith
      then show ?thesis using rec 3 by (simp add: emitted_Cons)
    qed
  qed
qed




lemma segs_in_range_b:
  "contig_b bs \<Longrightarrow> list_all (\<lambda>b. fst b \<le> snd b) bs \<Longrightarrow>
     \<forall>b\<in>set bs. fst (hd bs) \<le> fst b \<and> snd b \<le> snd (last bs)"
proof (induction bs rule: contig_b.induct)
  case 1
  show ?case by simp
next
  case (2 s)
  show ?case by simp
next
  case (3 s t rest)
  then have IH: "\<forall>b\<in>set (t # rest). fst t \<le> fst b \<and> snd b \<le> snd (last (t # rest))" by simp
  have l: "last (s # t # rest) = last (t # rest)" by simp
  from "3.prems" have st: "fst s \<le> snd s" "snd s + 1 = fst t" by simp_all
  have "snd t \<le> snd (last (t # rest))" using IH by simp
  moreover have "fst t \<le> snd t" using "3.prems" by simp
  ultimately have "snd s \<le> snd (last (t # rest))" using st by linarith
  with IH st show ?case unfolding l by (auto simp del: last.simps)
qed

lemma segs_in_range:
  assumes "partition_inv N segs" and "seg \<in> set segs"
  shows "0 \<le> startRecordIndex seg \<and> startRecordIndex seg \<le> endRecordIndex seg
         \<and> endRecordIndex seg \<le> N - 1"
proof -
  have "\<forall>b\<in>set (map bounds segs). fst (hd (map bounds segs)) \<le> fst b
          \<and> snd b \<le> snd (last (map bounds segs))"
    using assms(1) by (intro segs_in_range_b) (auto simp: partition_inv_bounds)
  moreover have "bounds seg \<in> set (map bounds segs)" using assms(2) by simp
  moreover have "fst (hd (map bounds segs)) = 0" "snd (last (map bounds segs)) = N - 1"
    using assms(1) by (auto simp: partition_inv_bounds)
  ultimately have "0 \<le> fst (bounds seg) \<and> snd (bounds seg) \<le> N - 1" by auto
  moreover have "startRecordIndex seg \<le> endRecordIndex seg"
    using assms by (auto simp: partition_inv_def list_all_iff)
  ultimately show ?thesis by (simp add: bounds_def)
qed

lemma js_slice_in_range:
  assumes "0 \<le> s" "s \<le> e" "e \<le> int (length xs) - 1"
  shows "js_slice xs s (e + 1) = take (nat (e + 1 - s)) (drop (nat s) xs)"
    and "js_slice xs s (e + 1) \<noteq> []"
    and "hd (js_slice xs s (e + 1)) = xs ! nat s"
    and "last (js_slice xs s (e + 1)) = xs ! nat e"
proof -
  show eq: "js_slice xs s (e + 1) = take (nat (e + 1 - s)) (drop (nat s) xs)"
    using assms by (simp add: js_slice_def Let_def)
  have len: "length (take (nat (e + 1 - s)) (drop (nat s) xs)) = nat (e + 1 - s)"
    using assms by simp
  then have pos: "0 < length (take (nat (e + 1 - s)) (drop (nat s) xs))" using assms by linarith
  then show ne: "js_slice xs s (e + 1) \<noteq> []" unfolding eq by blast
  have "hd (take (nat (e + 1 - s)) (drop (nat s) xs)) = take (nat (e + 1 - s)) (drop (nat s) xs) ! 0"
    using pos by (simp add: hd_conv_nth)
  also have "\<dots> = xs ! nat s" using assms by simp
  finally show "hd (js_slice xs s (e + 1)) = xs ! nat s" unfolding eq .
  have "last (take (nat (e + 1 - s)) (drop (nat s) xs)) =
          take (nat (e + 1 - s)) (drop (nat s) xs) ! (nat (e + 1 - s) - 1)"
    using pos len by (simp add: last_conv_nth)
  also have "\<dots> = xs ! (nat s + (nat (e + 1 - s) - 1))"
    using assms by simp
  also have "nat s + (nat (e + 1 - s) - 1) = nat e" using assms by linarith
  finally show "last (js_slice xs s (e + 1)) = xs ! nat e" unfolding eq .
qed


lemma partition_inv_nonempty_records:
  assumes "partition_inv (int (length records)) segs"
  shows "records \<noteq> []"
proof -
  have "0 \<le> int (length records) - 1" using assms by (rule cuts_of_valid(3))
  then show ?thesis by auto
qed

lemma takesAll_append:
  "takesAll accepts st (xs @ ys) = (takesAll accepts st xs \<and> takesAll accepts (st @ xs) ys)"
  by (induction xs arbitrary: st) auto

lemma onMesgs_takesAll:
  "onMesgs accepts st ms = (if takesAll accepts st ms then Inr (st @ ms) else Inl EncodeError)"
  by (induction ms arbitrary: st) auto

lemma encodeFitFile_calls:
  assumes "records \<noteq> []"
  shows "encodeFitFile accepts tz raw records segs =
           (if takesAll accepts [] (encoderCalls tz raw records segs)
            then Inr (encoderCalls tz raw records segs) else Inl EncodeError)"
proof -
  let ?pre = "[fileIdMessage raw records] @ deviceInfoMessages raw @ segmentLoop raw records segs 0 0"
  have c: "encoderCalls tz raw records segs = ?pre @ [activityMessage tz records segs]"
    by (simp add: encoderCalls_def)
  show ?thesis
    unfolding c takesAll_append [of accepts "[]" ?pre] encodeFitFile_def
    using assms by (simp add: onMesgs_takesAll)
qed

lemma emitted_segmentLoop_other:
  assumes "n \<noteq> EVENT" "n \<noteq> RECORD" "n \<noteq> LAP" "n \<noteq> SESSION"
  shows "emitted n (segmentLoop raw records segs i l) = []"
proof -
  have one: "\<And>sr seg i l. emitted n (segmentMessages raw sr seg i l) = []"
    using assms emitted_map_other [of RECORD n]
    by (simp add: segmentMessages_def Let_def emitted_Cons)
  show ?thesis
    by (induction segs arbitrary: i l) (simp_all add: Let_def one)
qed

lemma emitted_calls:
  assumes "n \<noteq> FILE_ID" "n \<noteq> DEVICE_INFO" "n \<noteq> ACTIVITY"
  shows "emitted n (encoderCalls tz raw records segs) = emitted n (segmentLoop raw records segs 0 0)"
proof -
  have "emitted n (deviceInfoMessages raw) = []"
    unfolding deviceInfoMessages_def using assms(2) by (intro emitted_map_other) simp
  moreover have "mesgNum (fileIdMessage raw records) = FILE_ID"
    by (simp add: fileIdMessage_def split: option.split)
  moreover have "mesgNum (activityMessage tz records segs :: 'a mesg) = ACTIVITY"
    by (simp add: activityMessage_def Let_def)
  ultimately show ?thesis using assms by (simp add: encoderCalls_def emitted_Cons)
qed

lemma activityElapsedTimes_calls:
  "activityElapsedTimes (encoderCalls tz raw records segs) =
     [(of_int (timestamp (last records) - timestamp (hd records)) :: rat) / 1000]"
proof -
  have "emitted ACTIVITY (deviceInfoMessages raw) = []"
    unfolding deviceInfoMessages_def
    by (intro emitted_map_other) (simp add: DEVICE_INFO_def ACTIVITY_def)
  moreover have "emitted ACTIVITY (segmentLoop raw records segs 0 0) = []"
    by (rule emitted_segmentLoop_other)
       (simp_all add: ACTIVITY_def EVENT_def RECORD_def LAP_def SESSION_def)
  moreover have "mesgNum (fileIdMessage raw records) \<noteq> ACTIVITY"
    by (simp add: fileIdMessage_def FILE_ID_def ACTIVITY_def split: option.split)
  ultimately show ?thesis
    by (simp add: activityElapsedTimes_def encoderCalls_def emitted_Cons activityMessage_def
          Let_def List.map_filter_simps numField_def)
qed

lemma takesAll_codec:
  "takesAll codecRefusingUnknown st ms = list_all (codecRefusingUnknown []) ms"
  by (induction ms arbitrary: st) (simp_all add: codecRefusingUnknown_def)

lemma map_of_set_field_other:
  "k' \<noteq> k \<Longrightarrow> map_of (set_field k v xs) k' = map_of xs k'"
  by (induction xs) auto

lemma in_getRawRecordsInRange:
  "m \<in> set (getRawRecordsInRange msgs s e) \<Longrightarrow> m \<in> set msgs"
proof -
  assume "m \<in> set (getRawRecordsInRange msgs s e)"
  then have "m \<in> set (emitted RECORD msgs)"
    unfolding getRawRecordsInRange_def rawRecordsLoop_slice
    by (meson in_set_takeD in_set_dropD)
  then show ?thesis by (simp add: emitted_def)
qed

lemma codec_same_data:
  "codecRefusingUnknown st \<lparr>mesgNum = k, data = data m\<rparr> = codecRefusingUnknown st' m"
  by (simp add: codecRefusingUnknown_def)

lemma codec_segmentMessages:
  assumes raw: "list_all (codecRefusingUnknown []) raw" and sp: "sport seg \<noteq> ''unknown''"
  shows "list_all (codecRefusingUnknown []) (segmentMessages raw sr seg i l)"
proof -
  have "list_all (codecRefusingUnknown [])
          (map (\<lambda>rawRec. \<lparr>mesgNum = RECORD, data = data rawRec\<rparr>)
             (getRawRecordsInRange raw (startRecordIndex seg) (endRecordIndex seg)))"
    using raw in_getRawRecordsInRange [of _ raw "startRecordIndex seg" "endRecordIndex seg"]
    by (auto simp: list_all_iff codec_same_data [of "[]" RECORD _ "[]"])
  then show ?thesis
    using sp by (simp add: segmentMessages_def Let_def codecRefusingUnknown_def)
qed

lemma codec_segmentLoop:
  assumes raw: "list_all (codecRefusingUnknown []) raw"
    and sp: "list_all (\<lambda>seg. sport seg \<noteq> ''unknown'') segs"
  shows "list_all (codecRefusingUnknown []) (segmentLoop raw records segs i l)"
  using sp
proof (induction segs arbitrary: i l)
  case Nil
  show ?case by simp
next
  case (Cons seg rest)
  then show ?case using codec_segmentMessages [OF raw] by (simp add: Let_def)
qed

lemma codec_calls:
  assumes raw: "list_all (codecRefusingUnknown []) raw"
    and sp: "list_all (\<lambda>seg. sport seg \<noteq> ''unknown'') segs"
  shows "takesAll codecRefusingUnknown [] (encoderCalls tz raw records segs)"
proof -
  have f: "codecRefusingUnknown [] (fileIdMessage raw records)"
  proof (cases "findMessage raw FILE_ID")
    case None
    then show ?thesis by (simp add: fileIdMessage_def codecRefusingUnknown_def)
  next
    case (Some msg)
    then have "msg \<in> set raw" by (auto simp: findMessage_def find_Some_iff)
    then have "codecRefusingUnknown [] msg" using raw by (simp add: list_all_iff)
    then show ?thesis using Some
      by (simp add: fileIdMessage_def codecRefusingUnknown_def map_of_set_field_other)
  qed
  have d: "list_all (codecRefusingUnknown []) (deviceInfoMessages raw)"
    using raw
    by (auto simp: deviceInfoMessages_def findAllMessages_def list_all_iff
          codec_same_data [of "[]" DEVICE_INFO _ "[]"])
  have a: "codecRefusingUnknown [] (activityMessage tz records segs)"
    by (simp add: activityMessage_def Let_def codecRefusingUnknown_def)
  show ?thesis
    unfolding takesAll_codec
    using f d a codec_segmentLoop [OF raw sp] by (simp add: encoderCalls_def)
qed

lemma c1_raw_accepted: "list_all (codecRefusingUnknown []) c1_raw"
  by (simp add: c1_raw_def codecRefusingUnknown_def)

lemma c4_facts:
  "partition_inv (int (length c4_records)) c4_segments"
  "c4_records \<noteq> []"
  "list_all (\<lambda>seg. sport seg \<noteq> ''unknown'') c4_segments"
  by (simp_all add: partition_inv_def c4_records_def c4_segments_def)









subsection \<open>Elapsed times\<close>

lemma sessionElapsedTimes_append [simp]:
  "sessionElapsedTimes (xs @ ys) = sessionElapsedTimes xs @ sessionElapsedTimes ys"
  by (simp add: sessionElapsedTimes_def List.map_filter_def)

lemma sessionElapsedTimes_Nil [simp]: "sessionElapsedTimes [] = []"
  by (simp add: sessionElapsedTimes_def List.map_filter_simps)

lemma sessionElapsedTimes_segmentMessages:
  "sessionElapsedTimes (segmentMessages raw segRecords seg i l) =
     [elapsedTime (computeSegmentStats segRecords)]"
proof -
  have "emitted SESSION (map (\<lambda>rawRec. \<lparr>mesgNum = RECORD, data = data rawRec\<rparr>)
          (getRawRecordsInRange raw (startRecordIndex seg) (endRecordIndex seg))) = []"
    by (rule emitted_map_other) (simp add: RECORD_def SESSION_def)
  then show ?thesis
    by (simp add: sessionElapsedTimes_def segmentMessages_def Let_def emitted_Cons
          List.map_filter_simps numField_def RECORD_def EVENT_def LAP_def SESSION_def)
qed

lemma segmentLoop_sessions:
  assumes "\<forall>seg\<in>set segs. 0 \<le> startRecordIndex seg \<and> startRecordIndex seg \<le> endRecordIndex seg
           \<and> endRecordIndex seg \<le> int (length records) - 1"
  shows "sessionElapsedTimes (segmentLoop raw records segs i l) = map (segmentElapsed records) segs"
  using assms
proof (induction segs arbitrary: i l)
  case Nil
  show ?case by simp
next
  case (Cons s rest)
  let ?a = "startRecordIndex s" and ?e = "endRecordIndex s"
  have r: "0 \<le> ?a" "?a \<le> ?e" "?e \<le> int (length records) - 1" using Cons.prems by simp_all
  note sl = js_slice_in_range [OF r]
  have IH: "sessionElapsedTimes (segmentLoop raw records rest (i + 1) (l + 1)) =
              map (segmentElapsed records) rest"
    using Cons.prems by (intro Cons.IH) simp
  show ?case
    using sl(2) IH
    by (simp add: Let_def sessionElapsedTimes_segmentMessages computeSegmentStats_def sl(3,4)
          segmentElapsed_def)
qed

lemma elapsed_telescope:
  assumes "contiguous segs" and "segs \<noteq> []"
  shows "sum_list (map (segmentElapsed records) segs) + boundaryGaps records segs =
         (of_int (timestamp (records ! nat (endRecordIndex (last segs)))
                  - timestamp (records ! nat (startRecordIndex (hd segs)))) :: rat) / 1000"
  using assms
proof (induction segs rule: contiguous.induct)
  case 1
  then show ?case by simp
next
  case (2 s)
  show ?case by (simp add: segmentElapsed_def)
next
  case (3 s t rest)
  then have IH: "sum_list (map (segmentElapsed records) (t # rest)) + boundaryGaps records (t # rest) =
         (of_int (timestamp (records ! nat (endRecordIndex (last (t # rest))))
                  - timestamp (records ! nat (startRecordIndex t))) :: rat) / 1000"
    by simp
  have l: "last (s # t # rest) = last (t # rest)" by simp
  have "sum_list (map (segmentElapsed records) (s # t # rest)) + boundaryGaps records (s # t # rest)
      = segmentElapsed records s
        + (of_int (timestamp (records ! nat (startRecordIndex t))
              - timestamp (records ! nat (endRecordIndex s))) :: rat) / 1000
        + (sum_list (map (segmentElapsed records) (t # rest)) + boundaryGaps records (t # rest))"
    by simp
  also have "\<dots> = (of_int (timestamp (records ! nat (endRecordIndex (last (t # rest))))
                  - timestamp (records ! nat (startRecordIndex s))) :: rat) / 1000"
    unfolding IH by (simp add: segmentElapsed_def field_simps)
  finally show ?case unfolding l by simp
qed

text \<open>
  Claim C4 as stated does not hold: for two samples one second apart, split into the
  segments \<open>[0, 0]\<close> and \<open>[1, 1]\<close>, the session elapsed times sum to 0 while the activity
  message carries 1 second.
\<close>

theorem elapsed_sum_counterexample:
  "partition_inv (int (length c4_records)) c4_segments
   \<and> \<not> isl (encodeFitFile codecRefusingUnknown (\<lambda>_. 0) c1_raw c4_records c4_segments)
   \<and> sum_list (sessionElapsedTimes
         (projr (encodeFitFile codecRefusingUnknown (\<lambda>_. 0) c1_raw c4_records c4_segments))) = 0
   \<and> activityElapsedTimes
         (projr (encodeFitFile codecRefusingUnknown (\<lambda>_. 0) c1_raw c4_records c4_segments)) = [1]"
proof -
  have r: "\<forall>seg\<in>set c4_segments. 0 \<le> startRecordIndex seg
            \<and> startRecordIndex seg \<le> endRecordIndex seg
            \<and> endRecordIndex seg \<le> int (length c4_records) - 1"
    by (simp add: c4_records_def c4_segments_def)
  have m: "map (segmentElapsed c4_records) c4_segments = [0, 0]"
    by (simp add: c4_records_def c4_segments_def sample_def segmentElapsed_def)
  have t: "(of_int (timestamp (last c4_records) - timestamp (hd c4_records)) :: rat) / 1000 = 1"
    by (simp add: c4_records_def sample_def)
  have acc: "takesAll codecRefusingUnknown [] (encoderCalls (\<lambda>_. 0) c1_raw c4_records c4_segments)"
    using c1_raw_accepted c4_facts(3) by (rule codec_calls)
  have enc: "encodeFitFile codecRefusingUnknown (\<lambda>_. 0) c1_raw c4_records c4_segments =
               Inr (encoderCalls (\<lambda>_. 0) c1_raw c4_records c4_segments)"
    using acc by (simp add: encodeFitFile_calls [OF c4_facts(2)])
  have act: "activityElapsedTimes (encoderCalls (\<lambda>_. 0) c1_raw c4_records c4_segments) = [1]"
    unfolding activityElapsedTimes_calls t ..
  have "sessionElapsedTimes (encoderCalls (\<lambda>_. 0) c1_raw c4_records c4_segments) =
          sessionElapsedTimes (segmentLoop c1_raw c4_records c4_segments 0 0)"
    by (simp add: sessionElapsedTimes_def emitted_calls
          SESSION_def FILE_ID_def DEVICE_INFO_def ACTIVITY_def)
  then have "sessionElapsedTimes (encoderCalls (\<lambda>_. 0) c1_raw c4_records c4_segments) = [0, 0]"
    unfolding segmentLoop_sessions [OF r] m .
  with c4_facts(1) act show ?thesis unfolding enc by simp
qed

text \<open>
  Claim C4, amended. For a segment list that satisfies the partition invariant and a codec
  that takes every message handed to it, \<open>encodeFitFile\<close> succeeds, each session carries
  its segment's last timestamp minus first timestamp in seconds, the activity message
  carries the last sample's timestamp minus the first sample's, and the sum of the session
  elapsed times plus the time between consecutive segments (from the last sample of one to
  the first sample of the next) equals the activity's elapsed time.
\<close>

theorem elapsed_conservation_with_gaps:
  assumes inv: "partition_inv (int (length records)) segments"
    and acc: "takesAll accepts [] (encoderCalls tzOffset rawOrderedMessages records segments)"
  shows "\<exists>out. encodeFitFile accepts tzOffset rawOrderedMessages records segments = Inr out
     \<and> sessionElapsedTimes out = map (segmentElapsed records) segments
     \<and> activityElapsedTimes out =
         [(of_int (timestamp (last records) - timestamp (hd records)) :: rat) / 1000]
     \<and> sum_list (sessionElapsedTimes out) + boundaryGaps records segments =
         (of_int (timestamp (last records) - timestamp (hd records)) :: rat) / 1000"
proof -
  let ?out = "encoderCalls tzOffset rawOrderedMessages records segments"
  have ne: "records \<noteq> []" using inv by (rule partition_inv_nonempty_records)
  have enc: "encodeFitFile accepts tzOffset rawOrderedMessages records segments = Inr ?out"
    using acc by (simp add: encodeFitFile_calls [OF ne])
  have act: "activityElapsedTimes ?out =
         [(of_int (timestamp (last records) - timestamp (hd records)) :: rat) / 1000]"
    by (rule activityElapsedTimes_calls)
  have ses: "sessionElapsedTimes ?out =
         sessionElapsedTimes (segmentLoop rawOrderedMessages records segments 0 0)"
    by (simp add: sessionElapsedTimes_def emitted_calls
          SESSION_def FILE_ID_def DEVICE_INFO_def ACTIVITY_def)
  have "\<forall>seg\<in>set segments. 0 \<le> startRecordIndex seg
            \<and> startRecordIndex seg \<le> endRecordIndex seg
            \<and> endRecordIndex seg \<le> int (length records) - 1"
    using segs_in_range [OF inv] by blast
  then have ses': "sessionElapsedTimes ?out = map (segmentElapsed records) segments"
    unfolding ses by (rule segmentLoop_sessions)
  have c: "contiguous segments" "segments \<noteq> []" "startRecordIndex (hd segments) = 0"
      "endRecordIndex (last segments) = int (length records) - 1"
    using inv by (simp_all add: partition_inv_def)
  have "nat (int (length records) - 1) = length records - 1" by simp
  then have ends: "records ! nat (endRecordIndex (last segments)) = last records"
      "records ! nat (startRecordIndex (hd segments)) = hd records"
    using ne c by (simp_all add: last_conv_nth hd_conv_nth)
  have "sum_list (sessionElapsedTimes ?out) + boundaryGaps records segments =
         (of_int (timestamp (last records) - timestamp (hd records)) :: rat) / 1000"
    unfolding ses' using elapsed_telescope [OF c(1,2), of records] by (simp only: ends)
  with enc ses' act show ?thesis by blast
qed

theorem elapsed_conservation_with_gaps_witness:
  "partition_inv (int (length c4_records)) c4_segments
   \<and> takesAll codecRefusingUnknown [] (encoderCalls (\<lambda>_. 0) c1_raw c4_records c4_segments)
   \<and> (\<exists>out. encodeFitFile codecRefusingUnknown (\<lambda>_. 0) c1_raw c4_records c4_segments = Inr out
         \<and> sessionElapsedTimes out = [0, 0]
         \<and> activityElapsedTimes out = [1]
         \<and> boundaryGaps c4_records c4_segments = 1)"
proof -
  have g: "boundaryGaps c4_records c4_segments = 1"
    by (simp add: c4_records_def c4_segments_def sample_def)
  have m: "map (segmentElapsed c4_records) c4_segments = [0, 0]"
    by (simp add: c4_records_def c4_segments_def sample_def segmentElapsed_def)
  have t: "(of_int (timestamp (last c4_records) - timestamp (hd c4_records)) :: rat) / 1000 = 1"
    by (simp add: c4_records_def sample_def)
  have acc: "takesAll codecRefusingUnknown [] (encoderCalls (\<lambda>_. 0) c1_raw c4_records c4_segments)"
    using c1_raw_accepted c4_facts(3) by (rule codec_calls)
  note w = elapsed_conservation_with_gaps [OF c4_facts(1) acc, unfolded m t g]
  from w c4_facts(1) acc g show ?thesis by auto
qed

subsection \<open>Total distance\<close>

lemma c6_slice: "js_slice c6_activity 2 4 =
    [sample 2000 (Some 3) None None, sample 3000 (Some 3) None (Some 300)]"
  by (simp add: js_slice_def c6_activity_def)

lemma c6_slice0: "js_slice c6_activity 0 2 =
    [sample 0 (Some 3) None (Some 0), sample 1000 (Some 3) None (Some 100)]"
  by (simp add: js_slice_def c6_activity_def)

lemma c6_stats: 
  "totalDistance (computeSegmentStats [sample 2000 (Some 3) None None, sample 3000 (Some 3) None (Some 300)]) = 300"
  "totalDistance (computeSegmentStats [sample 0 (Some 3) None (Some 0), sample 1000 (Some 3) None (Some 100)]) = 100"
  by (simp_all add: computeSegmentStats_def sample_def Let_def)

lemma sessionDistances_append [simp]:
  "sessionDistances (xs @ ys) = sessionDistances xs @ sessionDistances ys"
  by (simp add: sessionDistances_def List.map_filter_def)

lemma sessionDistances_Nil [simp]: "sessionDistances [] = []"
  by (simp add: sessionDistances_def List.map_filter_simps)

lemma sessionDistances_segmentMessages:
  "sessionDistances (segmentMessages raw segRecords seg i l) =
     [totalDistance (computeSegmentStats segRecords)]"
proof -
  have "emitted SESSION (map (\<lambda>rawRec. \<lparr>mesgNum = RECORD, data = data rawRec\<rparr>)
          (getRawRecordsInRange raw (startRecordIndex seg) (endRecordIndex seg))) = []"
    by (rule emitted_map_other) (simp add: RECORD_def SESSION_def)
  then show ?thesis
    by (simp add: sessionDistances_def segmentMessages_def Let_def emitted_Cons
          List.map_filter_simps numField_def RECORD_def EVENT_def LAP_def SESSION_def)
qed

text \<open>
  Claim C6 at an activity whose second segment starts on a sample without a distance and
  ends at 300 m, after a first segment of 100 m: the session messages carry the total
  distances 100 and 300. For that second slice \<open>computeSegmentStats\<close> reports 300, where
  the claim, and the distance column of \<open>renderSegmentsTable\<close> for the same slice, give 0.
\<close>

theorem totalDistance_first_undefined:
  "sessionDistances (projr (encodeFitFile codecRefusingUnknown (\<lambda>_. 0) c1_raw c6_activity
       c6_segments)) = [100, 300]
   \<and> totalDistance (computeSegmentStats (js_slice c6_activity 2 4)) = 300
   \<and> renderSegmentsTable_distance (js_slice c6_activity 2 4) = 0"
proof -
  have ne: "c6_activity \<noteq> []" by (simp add: c6_activity_def)
  have sp: "list_all (\<lambda>seg. sport seg \<noteq> ''unknown'') c6_segments"
    by (simp add: c6_segments_def)
  have acc: "takesAll codecRefusingUnknown [] (encoderCalls (\<lambda>_. 0) c1_raw c6_activity c6_segments)"
    using c1_raw_accepted sp by (rule codec_calls)
  have enc: "encodeFitFile codecRefusingUnknown (\<lambda>_. 0) c1_raw c6_activity c6_segments =
               Inr (encoderCalls (\<lambda>_. 0) c1_raw c6_activity c6_segments)"
    using acc by (simp add: encodeFitFile_calls [OF ne])
  have loop: "sessionDistances (segmentLoop c1_raw c6_activity c6_segments 0 0) = [100, 300]"
    by (simp add: c6_segments_def Let_def c6_slice c6_slice0 sessionDistances_segmentMessages
          c6_stats)
  have "sessionDistances (encoderCalls (\<lambda>_. 0) c1_raw c6_activity c6_segments) =
          sessionDistances (segmentLoop c1_raw c6_activity c6_segments 0 0)"
    by (simp add: sessionDistances_def emitted_calls
          SESSION_def FILE_ID_def DEVICE_INFO_def ACTIVITY_def)
  then have "sessionDistances (projr (encodeFitFile codecRefusingUnknown (\<lambda>_. 0) c1_raw
       c6_activity c6_segments)) = [100, 300]"
    unfolding enc using loop by simp
  moreover have "renderSegmentsTable_distance (js_slice c6_activity 2 4) = 0"
    unfolding c6_slice by (simp add: renderSegmentsTable_distance_def sample_def)
  ultimately show ?thesis using c6_stats(1) by (simp only: c6_slice)
qed

section \<open>Properties of the transition detection\<close>

lemma length_computeSpeedProfile [simp]:
  "length (computeSpeedProfile records) = length records"
  by (simp add: computeSpeedProfile_def Let_def)

lemma pickPeaks_length:
  "length peaks \<le> k \<Longrightarrow> length (pickPeaks k g cs peaks) \<le> k"
  by (induction cs arbitrary: peaks) (auto simp: Let_def)

lemma pickPeaks_subset:
  "set (pickPeaks k g cs peaks) \<subseteq> set peaks \<union> fst ` set cs"
proof (induction cs arbitrary: peaks)
  case Nil
  show ?case by simp
next
  case (Cons c cs)
  have a: "set (pickPeaks k g cs (peaks @ [fst c])) \<subseteq> set (peaks @ [fst c]) \<union> fst ` set cs"
    by (rule Cons.IH)
  have b: "set (pickPeaks k g cs peaks) \<subseteq> set peaks \<union> fst ` set cs"
    by (rule Cons.IH)
  show ?case using a b by (auto simp: Let_def)
qed

lemma separated_snoc:
  assumes "separated g peaks" and "0 < g"
    and "\<not> list_ex (\<lambda>p. \<bar>int p - int c\<bar> < int g) peaks"
  shows "separated g (peaks @ [c])"
proof -
  have far: "\<forall>p\<in>set peaks. int g \<le> \<bar>int p - int c\<bar>"
    using assms(3) by (auto simp: list_ex_iff not_less)
  have "c \<notin> set peaks"
  proof
    assume "c \<in> set peaks"
    then have "int g \<le> \<bar>int c - int c\<bar>" using far by blast
    then show False using assms(2) by simp
  qed
  moreover have "\<forall>p\<in>set peaks. (p < c \<longrightarrow> p + g \<le> c) \<and> (c < p \<longrightarrow> c + g \<le> p)"
    using far by (auto simp: abs_if split: if_splits)
  ultimately show ?thesis using assms(1) by (auto simp: separated_def)
qed

lemma pickPeaks_separated:
  "separated g peaks \<Longrightarrow> 0 < g \<Longrightarrow> separated g (pickPeaks k g cs peaks)"
proof (induction cs arbitrary: peaks)
  case Nil
  then show ?case by simp
next
  case (Cons c cs)
  show ?case
  proof (cases "length peaks \<ge> k")
    case True
    then show ?thesis using Cons.prems by simp
  next
    case False
    show ?thesis
    proof (cases "list_ex (\<lambda>p. \<bar>int p - int (fst c)\<bar> < int g) peaks")
      case True
      then show ?thesis using False Cons by (simp add: Let_def)
    next
      case far: False
      have "separated g (peaks @ [fst c])"
        using Cons.prems far by (intro separated_snoc) simp_all
      then have "separated g (pickPeaks k g cs (peaks @ [fst c]))"
        using Cons.prems(2) by (rule Cons.IH)
      then show ?thesis using False far by (simp add: Let_def)
    qed
  qed
qed

lemma rankedCandidates_range:
  "c \<in> set (rankedCandidates n g sm) \<Longrightarrow> g < fst c \<and> fst c < n - g"
  by (auto simp: rankedCandidates_def)

lemma c7_stage_profile: "computeSpeedProfile c7_records = c7_profile"
  unfolding c7_records_def c7_profile_def by code_simp

lemma c7_stage_derivative: "speedDerivative c7_profile = c7_derivative"
  unfolding c7_derivative_def c7_profile_def by code_simp

lemma c7_stage_smooth: "smoothDerivative 100 c7_derivative = c7_smooth"
  unfolding c7_derivative_def c7_smooth_def by code_simp

lemma c7_stage_candidates: "rankedCandidates 100 15 c7_smooth = c7_candidates"
  unfolding c7_candidates_def c7_smooth_def by code_simp

lemma c7_stage_peaks: "pickPeaks 2 15 c7_candidates [] = [84, 16]"
  unfolding c7_candidates_def by code_simp

lemma c7_length: "length c7_records = 100"
  by (simp add: c7_records_def)

lemma c7_detect: "detectTransitions c7_records 2 = [16, 84]"
proof -
  have len: "length c7_profile = 100" by (simp add: c7_profile_def)
  have "findSpeedTransitions c7_profile 2 = sort [84, 16]"
    unfolding findSpeedTransitions_def Let_def len
    by (simp add: c7_stage_derivative c7_stage_smooth c7_stage_candidates c7_stage_peaks)
  then show ?thesis by (simp add: detectTransitions_def c7_stage_profile)
qed

text \<open>
  Claim C7 as stated does not hold for the upper end of the interval: on 100 samples
  (\<open>minGap = 15\<close>) the detector returns the index 84, which is \<open>N - 1 - minGap\<close> itself
  and so not strictly below it.
\<close>

theorem detect_upper_bound_counterexample:
  "length c7_records = 100 \<and> (100 * 15) div 100 = (15 :: nat)
   \<and> detectTransitions c7_records 2 = [16, 84]
   \<and> \<not> ((84 :: nat) < 100 - 1 - 15)"
  using c7_length c7_detect by simp

text \<open>
  Claim C7, amended. \<open>detectTransitions\<close> is a function of the samples and \<open>k\<close>. Its
  result is ascending without repetition, has at most \<open>k\<close> indices, each index \<open>i\<close>
  satisfies \<open>minGap < i < N - minGap\<close> with \<open>minGap = floor(0.15 N)\<close> (so
  \<open>i = N - 1 - minGap\<close> is allowed), any two indices are at least \<open>minGap\<close> apart, and
  for \<open>N < 100\<close> the result is empty.
\<close>

theorem detect_separation:
  "sorted (detectTransitions records k)
   \<and> distinct (detectTransitions records k)
   \<and> length (detectTransitions records k) \<le> k
   \<and> (\<forall>i\<in>set (detectTransitions records k).
         (length records * 15) div 100 < i \<and> i < length records - (length records * 15) div 100)
   \<and> (\<forall>a\<in>set (detectTransitions records k). \<forall>b\<in>set (detectTransitions records k).
         a < b \<longrightarrow> a + (length records * 15) div 100 \<le> b)
   \<and> (length records < 100 \<longrightarrow> detectTransitions records k = [])"
proof (cases "length records < 100")
  case True
  then show ?thesis by (simp add: detectTransitions_def findSpeedTransitions_def)
next
  case False
  let ?n = "length records"
  let ?g = "(?n * 15) div 100"
  let ?p = "computeSpeedProfile records"
  let ?cs = "rankedCandidates ?n ?g (smoothDerivative ?n (speedDerivative ?p))"
  let ?peaks = "pickPeaks k ?g ?cs []"
  have r: "detectTransitions records k = sort ?peaks"
    using False by (simp add: detectTransitions_def findSpeedTransitions_def Let_def)
  have g: "0 < ?g" using False by linarith
  have len: "length ?peaks \<le> k" by (rule pickPeaks_length) simp
  have "separated ?g []" by (simp add: separated_def)
  then have sep: "separated ?g ?peaks" using g by (rule pickPeaks_separated)
  have rng: "\<forall>i\<in>set ?peaks. ?g < i \<and> i < ?n - ?g"
  proof
    fix i assume "i \<in> set ?peaks"
    then have "i \<in> fst ` set ?cs" using pickPeaks_subset [of k ?g ?cs "[]"] by auto
    then show "?g < i \<and> i < ?n - ?g" using rankedCandidates_range by blast
  qed
  show ?thesis
    unfolding r using len sep rng False by (simp add: separated_def)
qed

theorem detect_separation_witness:
  "length c7_records = 100
   \<and> sorted (detectTransitions c7_records 2)
   \<and> distinct (detectTransitions c7_records 2)
   \<and> length (detectTransitions c7_records 2) \<le> 2
   \<and> list_all (\<lambda>i. 15 < i \<and> i < 85) (detectTransitions c7_records 2)
   \<and> length (take 50 c7_records) < 100
   \<and> detectTransitions (take 50 c7_records) 2 = []"
proof -
  note t = detect_separation [of c7_records 2, unfolded c7_length]
  have a: "sorted (detectTransitions c7_records 2) \<and> distinct (detectTransitions c7_records 2)
     \<and> length (detectTransitions c7_records 2) \<le> 2"
    using t by blast
  have "\<forall>i\<in>set (detectTransitions c7_records 2). 100 * 15 div 100 < i \<and> i < 100 - 100 * 15 div 100"
    using t by blast
  then have b: "list_all (\<lambda>i. 15 < i \<and> i < 85) (detectTransitions c7_records 2)"
    by (simp add: list_all_iff)
  have l: "length (take 50 c7_records) < 100" by (simp add: c7_length)
  have c: "detectTransitions (take 50 c7_records) 2 = []"
    using detect_separation [of "take 50 c7_records" 2] l by blast
  show ?thesis using a b c l c7_length by blast
qed

end
